theory Spec2Isabelle
  imports Main
begin

section \<open>Error kinds\<close>

text \<open>The \<open>ErrorType\<close> enumeration, in the order of its \<open>iota\<close> declaration.\<close>

datatype ErrorType =
    ErrUnableToParse
  | ErrElementNotFound
  | ErrElementsNotFound
  | ErrNoNextSibling
  | ErrNoPreviousSibling
  | ErrNoNextElementSibling
  | ErrNoPreviousElementSibling
  | ErrCreatingGetRequest
  | ErrInGetRequest
  | ErrCreatingPostRequest
  | ErrMarshallingPostRequest
  | ErrReadingResponse

text \<open>\<open>type Error struct { Type ErrorType; msg error }\<close>; the wrapped \<open>error\<close> value is
  represented by its message.\<close>

record Error =
  Type :: ErrorType
  msg :: string

definition newError :: "ErrorType \<Rightarrow> string \<Rightarrow> Error" where
  "newError t m = \<lparr>Error.Type = t, msg = m\<rparr>"

text \<open>Run-time panics of the Go program that the operations below can raise.\<close>

datatype panic = NilPointerDereference | IndexOutOfRange

section \<open>The node tree of the external parser\<close>

datatype NodeType =
  ErrorNode | TextNode | DocumentNode | ElementNode | CommentNode | DoctypeNode | RawNode

record Attribute =
  Namespace :: string
  Key :: string
  Val :: string

text \<open>The content of one node: its kind, its \<open>Data\<close> (tag name of an element, text of a
  text node), its attribute pairs in order, and its children in order.\<close>

datatype tree = Tree (Type: NodeType) (Data: string) (Attr: "Attribute list") (kids: "tree list")

text \<open>A non-nil \<open>*html.Node\<close> is a position in the tree: the node's content together
  with the siblings before it (nearest first) and the siblings after it. A nullable pointer
  is an \<open>html_Node option\<close>. The links this package reads are \<open>FirstChild\<close>,
  \<open>NextSibling\<close> and \<open>PrevSibling\<close>.\<close>

datatype html_Node = At (lefts: "tree list") (here: tree) (rights: "tree list")

definition FirstChild :: "html_Node \<Rightarrow> html_Node option" where
  "FirstChild n = (case kids (here n) of [] \<Rightarrow> None | c # cs \<Rightarrow> Some (At [] c cs))"

definition NextSibling :: "html_Node \<Rightarrow> html_Node option" where
  "NextSibling n = (case rights n of [] \<Rightarrow> None | x # r \<Rightarrow> Some (At (here n # lefts n) x r))"

definition PrevSibling :: "html_Node \<Rightarrow> html_Node option" where
  "PrevSibling n = (case lefts n of [] \<Rightarrow> None | x # l \<Rightarrow> Some (At l x (here n # rights n)))"

section \<open>Library functions on strings\<close>

text \<open>Go strings are byte sequences; \<open>string\<close> is a list of 8-bit characters.

  \<open>strings.Fields\<close> splits around runs of white space as defined by \<open>unicode.IsSpace\<close>:
  the six ASCII characters tab, line feed, vertical tab, form feed, carriage return and
  space, U+0085, U+00A0, and the \<open>White_Space\<close> characters beyond Latin-1 (U+1680,
  U+2000 to U+200A, U+2028, U+2029, U+202F, U+205F, U+3000). \<open>spaceWidth s\<close> is the
  number of bytes of the white-space rune that \<open>s\<close> starts with in UTF-8, and 0 when
  \<open>s\<close> starts with no such rune. The lead bytes of these encodings never occur inside
  another well-formed encoding, so scanning one byte at a time past everything else
  finds the same white-space runes as decoding rune by rune.\<close>

definition asciiSpace :: "char \<Rightarrow> bool" where
  "asciiSpace c = (c \<in> {CHR 0x09, CHR 0x0A, CHR 0x0B, CHR 0x0C, CHR 0x0D, CHR 0x20})"

definition spaceWidth :: "string \<Rightarrow> nat" where
  "spaceWidth s =
     (case s of
        [] \<Rightarrow> 0
      | c # cs \<Rightarrow>
          if asciiSpace c then 1
          else if take 2 s \<in> {[CHR 0xC2, CHR 0x85], [CHR 0xC2, CHR 0xA0]} then 2
          else if take 3 s = [CHR 0xE1, CHR 0x9A, CHR 0x80] then 3
          else if take 2 s = [CHR 0xE2, CHR 0x80] \<and> length s \<ge> 3
                  \<and> (of_char (s ! 2) :: nat) \<in> {0x80..0x8A} \<union> {0xA8, 0xA9, 0xAF} then 3
          else if take 3 s \<in> {[CHR 0xE2, CHR 0x81, CHR 0x9F], [CHR 0xE3, CHR 0x80, CHR 0x80]}
            then 3
          else 0)"

text \<open>\<open>Fields_from cur s\<close>: the fields of \<open>s\<close> when \<open>cur\<close> is the field read so far
  (empty when no field is open).\<close>

function Fields_from :: "string \<Rightarrow> string \<Rightarrow> string list" where
  "Fields_from cur [] = (if cur = [] then [] else [cur])"
| "Fields_from cur (c # cs) =
     (if 0 < spaceWidth (c # cs)
      then (if cur = [] then [] else [cur]) @ Fields_from [] (drop (spaceWidth (c # cs)) (c # cs))
      else Fields_from (cur @ [c]) cs)"
  by pat_completeness auto
termination
  by (relation "measure (\<lambda>(cur, s). length s)") auto

definition Fields :: "string \<Rightarrow> string list" where
  "Fields s = Fields_from [] s"

text \<open>The regular expression \<open>^\s+$\<close> of Go's \<open>regexp\<close> package: \<open>\s\<close> is the class
  \<open>[\t\n\f\r ]\<close> (no vertical tab) and, with no flag, \<open>^\<close> and \<open>$\<close> are the ends of the
  text; it matches the non-empty strings made of these five characters only.\<close>

definition reSpace :: "char \<Rightarrow> bool" where
  "reSpace c = (c \<in> {CHR 0x09, CHR 0x0A, CHR 0x0C, CHR 0x0D, CHR 0x20})"

definition onlyWhitespace :: "string \<Rightarrow> bool" where
  "onlyWhitespace s = (s \<noteq> [] \<and> list_all reSpace s)"

section \<open>Matcher\<close>

definition matchElementName :: "html_Node \<Rightarrow> string \<Rightarrow> bool" where
  "matchElementName n name = (name = [] \<or> name = Data (here n))"

definition attributeAndValueEquals :: "Attribute \<Rightarrow> string \<Rightarrow> string \<Rightarrow> bool" where
  "attributeAndValueEquals attr attribute v = (Key attr = attribute \<and> Val attr = v)"

text \<open>The \<open>range\<close> loop of \<open>attributeContainsValue\<close> over the fields, returning at the
  first field equal to the value.\<close>

fun containsField :: "string list \<Rightarrow> string \<Rightarrow> bool" where
  "containsField [] v = False"
| "containsField (attrVal # rest) v = (if attrVal = v then True else containsField rest v)"

definition attributeContainsValue :: "Attribute \<Rightarrow> string \<Rightarrow> string \<Rightarrow> bool" where
  "attributeContainsValue attr attribute v =
     (if Key attr = attribute then containsField (Fields (Val attr)) v else False)"

section \<open>Traversal engine\<close>

text \<open>The number of nodes of a tree; it bounds the recursion of the searches.\<close>

fun nodes :: "tree \<Rightarrow> nat" where
  "nodes (Tree t d a cs) = Suc (sum_list (map nodes cs))"

lemma nodes_pos: "0 < nodes t"
  by (cases t) simp

lemma nodes_kids: "kids t = c # cs \<Longrightarrow> nodes t = Suc (nodes c + sum_list (map nodes cs))"
  by (cases t) simp

definition weight :: "html_Node option \<Rightarrow> nat" where
  "weight p = (case p of None \<Rightarrow> 0 | Some n \<Rightarrow> 2 * nodes (here n))"

definition weight_siblings :: "html_Node option \<Rightarrow> nat" where
  "weight_siblings p =
     (case p of None \<Rightarrow> 0
      | Some c \<Rightarrow> 2 * (nodes (here c) + sum_list (map nodes (rights c))) + 1)"

text \<open>The loop of \<open>findOnce\<close> over \<open>n.Attr\<close>. It is entered with \<open>len(args) > 1\<close>, so
  \<open>args[1]\<close> exists; \<open>args[2]\<close> is out of range when there are two arguments.\<close>

fun findOnce_attrs :: "Attribute list \<Rightarrow> string list \<Rightarrow> bool \<Rightarrow> panic + bool" where
  "findOnce_attrs [] args strict = Inr False"
| "findOnce_attrs (attr # rest) args strict =
     (if length args < 3 then Inl IndexOutOfRange
      else if (strict \<and> attributeAndValueEquals attr (args ! 1) (args ! 2)) \<or>
              (\<not> strict \<and> attributeContainsValue attr (args ! 1) (args ! 2))
      then Inr True
      else findOnce_attrs rest args strict)"

text \<open>The body of \<open>if uni { ... }\<close> in \<open>findOnce\<close>: \<open>Inr True\<close> when it returns
  \<open>n, true\<close>, \<open>Inr False\<close> when control falls through to the loop over the children.\<close>

definition findOnce_test :: "html_Node \<Rightarrow> string list \<Rightarrow> bool \<Rightarrow> panic + bool" where
  "findOnce_test n args strict =
     (if tree.Type (here n) = ElementNode then
        (if args = [] then Inl IndexOutOfRange
         else if matchElementName n (args ! 0) then
           (if 1 < length args \<and> length args < 4 then findOnce_attrs (Attr (here n)) args strict
            else if length args = 1 then Inr True
            else Inr False)
         else Inr False)
      else Inr False)"

text \<open>\<open>findOnce\<close> returns \<open>(*html.Node, bool)\<close>: \<open>Some p\<close> is \<open>(p, true)\<close> and \<open>None\<close> is
  \<open>(nil, false)\<close>. \<open>findOnce_children c\<close> is the loop
  \<open>for c := n.FirstChild; c != nil; c = c.NextSibling\<close> from its current \<open>c\<close>.\<close>

function findOnce :: "html_Node option \<Rightarrow> string list \<Rightarrow> bool \<Rightarrow> bool \<Rightarrow> panic + html_Node option"
  and findOnce_children :: "html_Node option \<Rightarrow> string list \<Rightarrow> bool \<Rightarrow> panic + html_Node option"
where
  "findOnce None args uni strict = Inl NilPointerDereference"
| "findOnce (Some n) args uni strict =
     (if uni then
        (case findOnce_test n args strict of
           Inl e \<Rightarrow> Inl e
         | Inr True \<Rightarrow> Inr (Some n)
         | Inr False \<Rightarrow> findOnce_children (FirstChild n) args strict)
      else findOnce_children (FirstChild n) args strict)"
| "findOnce_children None args strict = Inr None"
| "findOnce_children (Some c) args strict =
     (case findOnce (Some c) args True strict of
        Inl e \<Rightarrow> Inl e
      | Inr (Some p) \<Rightarrow> Inr (Some p)
      | Inr None \<Rightarrow> findOnce_children (NextSibling c) args strict)"
  by pat_completeness auto
termination
  by (relation "measure (\<lambda>x. case x of Inl (p, _) \<Rightarrow> weight p | Inr (p, _) \<Rightarrow> weight_siblings p)")
     (auto simp: weight_def weight_siblings_def FirstChild_def NextSibling_def nodes_pos nodes_kids
           split: list.splits)

text \<open>The loop of the closure \<open>f\<close> of \<open>findAllofem\<close> over \<open>n.Attr\<close>; \<open>nodeLinks\<close> is
  the slice the closure appends to, passed in and returned.\<close>

fun findAllofem_attrs ::
  "Attribute list \<Rightarrow> html_Node \<Rightarrow> string list \<Rightarrow> bool \<Rightarrow> html_Node list \<Rightarrow> panic + html_Node list"
where
  "findAllofem_attrs [] n args strict nodeLinks = Inr nodeLinks"
| "findAllofem_attrs (attr # rest) n args strict nodeLinks =
     (if length args < 3 then Inl IndexOutOfRange
      else if (strict \<and> attributeAndValueEquals attr (args ! 1) (args ! 2)) \<or>
              (\<not> strict \<and> attributeContainsValue attr (args ! 1) (args ! 2))
      then findAllofem_attrs rest n args strict (nodeLinks @ [n])
      else findAllofem_attrs rest n args strict nodeLinks)"

text \<open>The body of \<open>if uni { ... }\<close> in the closure.\<close>

definition findAllofem_test ::
  "html_Node \<Rightarrow> string list \<Rightarrow> bool \<Rightarrow> html_Node list \<Rightarrow> panic + html_Node list"
where
  "findAllofem_test n args strict nodeLinks =
     (if tree.Type (here n) = ElementNode then
        (if args = [] then Inl IndexOutOfRange
         else if matchElementName n (args ! 0) then
           (if 1 < length args \<and> length args < 4
            then findAllofem_attrs (Attr (here n)) n args strict nodeLinks
            else if length args = 1 then Inr (nodeLinks @ [n])
            else Inr nodeLinks)
         else Inr nodeLinks)
      else Inr nodeLinks)"

function findAllofem_f ::
    "bool \<Rightarrow> html_Node option \<Rightarrow> string list \<Rightarrow> bool \<Rightarrow> html_Node list \<Rightarrow> panic + html_Node list"
  and findAllofem_children ::
    "bool \<Rightarrow> html_Node option \<Rightarrow> string list \<Rightarrow> html_Node list \<Rightarrow> panic + html_Node list"
where
  "findAllofem_f strict None args uni nodeLinks = Inl NilPointerDereference"
| "findAllofem_f strict (Some n) args uni nodeLinks =
     (if uni then
        (case findAllofem_test n args strict nodeLinks of
           Inl e \<Rightarrow> Inl e
         | Inr nodeLinks' \<Rightarrow> findAllofem_children strict (FirstChild n) args nodeLinks')
      else findAllofem_children strict (FirstChild n) args nodeLinks)"
| "findAllofem_children strict None args nodeLinks = Inr nodeLinks"
| "findAllofem_children strict (Some c) args nodeLinks =
     (case findAllofem_f strict (Some c) args True nodeLinks of
        Inl e \<Rightarrow> Inl e
      | Inr nodeLinks' \<Rightarrow> findAllofem_children strict (NextSibling c) args nodeLinks')"
  by pat_completeness auto
termination
  by (relation "measure (\<lambda>x. case x of Inl (_, p, _) \<Rightarrow> weight p
                                     | Inr (_, p, _) \<Rightarrow> weight_siblings p)")
     (auto simp: weight_def weight_siblings_def FirstChild_def NextSibling_def nodes_pos nodes_kids
           split: list.splits)

definition findAllofem :: "html_Node option \<Rightarrow> string list \<Rightarrow> bool \<Rightarrow> panic + html_Node list" where
  "findAllofem n args strict = findAllofem_f strict n args False []"

section \<open>Query results\<close>

record Root =
  Node :: "html_Node option"
  NodeValue :: string
  Error :: "Error option"

record Roots =
  Roots :: "Root list"
  Len :: int
  Error :: "Error option"

definition Find :: "Root \<Rightarrow> string list \<Rightarrow> panic + Root" where
  "Find r args =
     (case findOnce (Node r) args False False of
        Inl e \<Rightarrow> Inl e
      | Inr None \<Rightarrow>
          Inr \<lparr>Node = None, NodeValue = [],
               Root.Error = Some \<lparr>Error.Type = ErrElementNotFound,
                                  msg = ''given element and attriabutes not found''\<rparr>\<rparr>
      | Inr (Some temp) \<Rightarrow>
          Inr \<lparr>Node = Some temp, NodeValue = Data (here temp), Root.Error = None\<rparr>)"

definition FindStrict :: "Root \<Rightarrow> string list \<Rightarrow> panic + Root" where
  "FindStrict r args =
     (case findOnce (Node r) args False True of
        Inl e \<Rightarrow> Inl e
      | Inr None \<Rightarrow>
          Inr \<lparr>Node = None, NodeValue = [],
               Root.Error = Some \<lparr>Error.Type = ErrElementNotFound,
                                  msg = ''given element and attriabutes not found''\<rparr>\<rparr>
      | Inr (Some temp) \<Rightarrow>
          Inr \<lparr>Node = Some temp, NodeValue = Data (here temp), Root.Error = None\<rparr>)"

definition Title :: "Root \<Rightarrow> panic + Root" where
  "Title r =
     (case findOnce (Node r) [''title''] False True of
        Inl e \<Rightarrow> Inl e
      | Inr None \<Rightarrow>
          Inr \<lparr>Node = None, NodeValue = [],
               Root.Error = Some \<lparr>Error.Type = ErrElementNotFound,
                                  msg = ''given element and attriabutes not found''\<rparr>\<rparr>
      | Inr (Some re) \<Rightarrow>
          Inr \<lparr>Node = Some re, NodeValue = Data (here re), Root.Error = None\<rparr>)"

definition FindNextSibling :: "Root \<Rightarrow> panic + Root" where
  "FindNextSibling r =
     (case Node r of
        None \<Rightarrow> Inl NilPointerDereference
      | Some n \<Rightarrow>
          (case NextSibling n of
             None \<Rightarrow>
               Inr \<lparr>Node = None, NodeValue = [],
                    Root.Error = Some (newError ErrNoNextSibling ''no next sibling found'')\<rparr>
           | Some nextSibling \<Rightarrow>
               Inr \<lparr>Node = Some nextSibling, NodeValue = Data (here nextSibling),
                    Root.Error = None\<rparr>))"

definition FindPrevSibling :: "Root \<Rightarrow> panic + Root" where
  "FindPrevSibling r =
     (case Node r of
        None \<Rightarrow> Inl NilPointerDereference
      | Some n \<Rightarrow>
          (case PrevSibling n of
             None \<Rightarrow>
               Inr \<lparr>Node = None, NodeValue = [],
                    Root.Error = Some (newError ErrNoNextSibling ''no previous sibling found'')\<rparr>
           | Some prevSibling \<Rightarrow>
               Inr \<lparr>Node = Some prevSibling, NodeValue = Data (here prevSibling),
                    Root.Error = None\<rparr>))"

definition siblings_after :: "Root \<Rightarrow> nat" where
  "siblings_after r = (case Node r of None \<Rightarrow> 0 | Some n \<Rightarrow> length (rights n))"

definition siblings_before :: "Root \<Rightarrow> nat" where
  "siblings_before r = (case Node r of None \<Rightarrow> 0 | Some n \<Rightarrow> length (lefts n))"

function FindNextElementSibling :: "Root \<Rightarrow> panic + Root" where
  "FindNextElementSibling r =
     (case Node r of
        None \<Rightarrow> Inl NilPointerDereference
      | Some n \<Rightarrow>
          (case NextSibling n of
             None \<Rightarrow>
               Inr \<lparr>Node = None, NodeValue = [],
                    Root.Error = Some (newError ErrNoNextSibling ''no next element sibling found'')\<rparr>
           | Some nextSibling \<Rightarrow>
               if tree.Type (here nextSibling) = ElementNode
               then Inr \<lparr>Node = Some nextSibling, NodeValue = Data (here nextSibling),
                         Root.Error = None\<rparr>
               else FindNextElementSibling
                      \<lparr>Node = Some nextSibling, NodeValue = Data (here nextSibling),
                       Root.Error = None\<rparr>))"
  by pat_completeness auto
termination
  by (relation "measure siblings_after")
     (auto simp: siblings_after_def NextSibling_def split: list.splits)

function FindPrevElementSibling :: "Root \<Rightarrow> panic + Root" where
  "FindPrevElementSibling r =
     (case Node r of
        None \<Rightarrow> Inl NilPointerDereference
      | Some n \<Rightarrow>
          (case PrevSibling n of
             None \<Rightarrow>
               Inr \<lparr>Node = None, NodeValue = [],
                    Root.Error =
                      Some (newError ErrNoNextSibling ''no previous element sibling found'')\<rparr>
           | Some prevSibling \<Rightarrow>
               if tree.Type (here prevSibling) = ElementNode
               then Inr \<lparr>Node = Some prevSibling, NodeValue = Data (here prevSibling),
                         Root.Error = None\<rparr>
               else FindPrevElementSibling
                      \<lparr>Node = Some prevSibling, NodeValue = Data (here prevSibling),
                       Root.Error = None\<rparr>))"
  by pat_completeness auto
termination
  by (relation "measure siblings_before")
     (auto simp: siblings_before_def PrevSibling_def split: list.splits)

text \<open>The loop \<open>for i := 0; i < length; i++\<close> of \<open>FindAll\<close> and \<open>FindAllStrict\<close>
  wraps \<open>temp[i]\<close> for each index in turn.\<close>

definition wrap :: "html_Node \<Rightarrow> Root" where
  "wrap t = \<lparr>Node = Some t, NodeValue = Data (here t), Root.Error = None\<rparr>"

definition FindAll :: "Root \<Rightarrow> string list \<Rightarrow> panic + Roots" where
  "FindAll r args =
     (case findAllofem (Node r) args False of
        Inl e \<Rightarrow> Inl e
      | Inr temp \<Rightarrow>
          if length temp = 0
          then Inr \<lparr>Roots = [], Len = 0,
                    Roots.Error =
                      Some (newError ErrElementsNotFound ''no elements or attriabutes found'')\<rparr>
          else Inr \<lparr>Roots = map wrap temp, Len = int (length temp), Roots.Error = None\<rparr>)"

text \<open>\<open>strings.Join\<close>.\<close>

fun Join :: "string list \<Rightarrow> string \<Rightarrow> string" where
  "Join [] sep = []"
| "Join [x] sep = x"
| "Join (x # y # ys) sep = x @ sep @ Join (y # ys) sep"

text \<open>The message of \<open>FindAllStrict\<close> reads \<open>args[0]\<close> and \<open>args[1:]\<close>, which are out
  of range when no argument was given.\<close>

definition FindAllStrict :: "Root \<Rightarrow> string list \<Rightarrow> panic + Roots" where
  "FindAllStrict r args =
     (case findAllofem (Node r) args True of
        Inl e \<Rightarrow> Inl e
      | Inr temp \<Rightarrow>
          if length temp = 0
          then (if args = [] then Inl IndexOutOfRange
                else Inr \<lparr>Roots = [], Len = 0,
                          Roots.Error =
                            Some (newError ErrElementNotFound
                                   (''element `'' @ args ! 0 @ ''` with attributes `''
                                     @ Join (drop 1 args) '' '' @ ''` not found''))\<rparr>)
          else Inr \<lparr>Roots = map wrap temp, Len = int (length temp), Roots.Error = None\<rparr>)"

text \<open>\<open>rs.Roots[0]\<close> and \<open>rs.Roots[rs.Len-1]\<close>. \<open>Len\<close> is a Go \<open>int\<close>; a slice is
  shorter than \<open>2^63\<close>, so an index that \<open>Len-1\<close> could only reach by wrapping around is
  out of range as the negative index is.\<close>

definition First :: "Roots \<Rightarrow> panic + Root" where
  "First rs = (if 0 < length (Roots rs) then Inr (Roots rs ! 0) else Inl IndexOutOfRange)"

definition Last :: "Roots \<Rightarrow> panic + Root" where
  "Last rs =
     (let i = Len rs - 1
      in if 0 \<le> i \<and> i < int (length (Roots rs)) then Inr (Roots rs ! nat i)
         else Inl IndexOutOfRange)"

text \<open>The loop of \<open>Children\<close> from its current \<open>childNode\<close>, with the two variables
  \<open>childrenNode\<close> and \<open>rootNode\<close> it updates.\<close>

function Children_loop :: "html_Node option \<Rightarrow> Roots \<Rightarrow> Root list \<Rightarrow> Roots" where
  "Children_loop None childrenNode rootNode = childrenNode"
| "Children_loop (Some childNode) childrenNode rootNode =
     (let rootNode' = rootNode @ [\<lparr>Node = Some childNode, NodeValue = Data (here childNode),
                                   Root.Error = None\<rparr>]
      in Children_loop (NextSibling childNode)
           (childrenNode\<lparr>Roots := rootNode', Len := int (length rootNode')\<rparr>) rootNode')"
  by pat_completeness auto
termination
  by (relation "measure (\<lambda>(p, _). weight_siblings p)")
     (auto simp: weight_siblings_def NextSibling_def nodes_pos split: list.splits)

definition Children :: "Root \<Rightarrow> panic + Roots" where
  "Children r =
     (case Node r of
        None \<Rightarrow> Inl NilPointerDereference
      | Some n \<Rightarrow> Inr (Children_loop (FirstChild n) \<lparr>Roots = [], Len = 0, Roots.Error = None\<rparr> []))"

section \<open>Document entry point\<close>

text \<open>The loop of \<open>htmlparsing\<close> that walks from the parser's result to the first element
  node. A \<open>switch\<close> without a matching case leaves \<open>root\<close> unchanged, so on a node of any
  other kind the loop does not end; it dereferences \<open>root\<close> when the links run out.\<close>

partial_function (option) htmlparsing_loop :: "html_Node option \<Rightarrow> (panic + html_Node) option" where
  "htmlparsing_loop root =
     (case root of
        None \<Rightarrow> Some (Inl NilPointerDereference)
      | Some n \<Rightarrow>
          if tree.Type (here n) \<noteq> ElementNode then
            (case tree.Type (here n) of
               DocumentNode \<Rightarrow> htmlparsing_loop (FirstChild n)
             | DoctypeNode \<Rightarrow> htmlparsing_loop (NextSibling n)
             | CommentNode \<Rightarrow> htmlparsing_loop (NextSibling n)
             | _ \<Rightarrow> htmlparsing_loop (Some n))
          else Some (Inr n))"

text \<open>\<open>htmlparsing\<close>, given what \<open>html.Parse\<close> returned: \<open>Inl\<close> the message of its error,
  \<open>Inr\<close> the root it produced. \<open>None\<close> is a run that does not return.\<close>

definition htmlparsing :: "string + html_Node option \<Rightarrow> (panic + Root) option" where
  "htmlparsing parsed =
     (case parsed of
        Inl err \<Rightarrow>
          Some (Inr \<lparr>Node = None, NodeValue = [],
                     Root.Error = Some (newError ErrUnableToParse err)\<rparr>)
      | Inr root \<Rightarrow>
          (case htmlparsing_loop root of
             None \<Rightarrow> None
           | Some (Inl e) \<Rightarrow> Some (Inl e)
           | Some (Inr n) \<Rightarrow>
               Some (Inr \<lparr>Node = Some n, NodeValue = Data (here n), Root.Error = None\<rparr>)))"

section \<open>Text extraction\<close>

text \<open>The closure \<open>f\<close> of \<open>Text\<close>, with the captured \<open>k\<close> as a parameter. \<open>Text_f\<close> is
  the closure from its entry. \<open>Text_k k n\<close> is its second statement, \<open>if k != nil { ... }\<close>
  followed by \<open>return ""\<close>, with the value \<open>n\<close> has there. The results of the two inner
  calls \<open>f(n)\<close> are dropped by the source; a panic inside them is not.\<close>

definition remaining :: "html_Node option \<Rightarrow> nat" where
  "remaining p = (case p of None \<Rightarrow> 0 | Some n \<Rightarrow> Suc (length (rights n)))"

function Text_f :: "html_Node option \<Rightarrow> html_Node option \<Rightarrow> panic + string"
  and Text_k :: "html_Node option \<Rightarrow> html_Node option \<Rightarrow> panic + string"
where
  "Text_f k None = Text_k k None"
| "Text_f k (Some n) =
     (if tree.Type (here n) \<noteq> TextNode then
        (case NextSibling n of
           None \<Rightarrow> Inr []
         | Some n' \<Rightarrow>
             (case Text_f k (Some n') of
                Inl e \<Rightarrow> Inl e
              | Inr _ \<Rightarrow> Text_k k (Some n')))
      else Text_k k (Some n))"
| "Text_k None n = Inr []"
| "Text_k (Some k) None =
     (if onlyWhitespace (Data (here k)) then Inl NilPointerDereference
      else Inr (Data (here k)))"
| "Text_k (Some k) (Some n) =
     (if onlyWhitespace (Data (here k)) then
        (case NextSibling n of
           None \<Rightarrow> Inr []
         | Some n' \<Rightarrow>
             (case Text_f (Some k) (Some n') of
                Inl e \<Rightarrow> Inl e
              | Inr _ \<Rightarrow> Inr (Data (here k))))
      else Inr (Data (here k)))"
  by pat_completeness auto
termination
  by (relation "measure (\<lambda>x. case x of Inl (_, p) \<Rightarrow> 2 * remaining p + 1
                                     | Inr (_, p) \<Rightarrow> 2 * remaining p)")
     (auto simp: remaining_def NextSibling_def split: list.splits)

definition Text :: "Root \<Rightarrow> panic + string" where
  "Text r =
     (case Node r of
        None \<Rightarrow> Inl NilPointerDereference
      | Some n \<Rightarrow> Text_f (FirstChild n) (FirstChild n))"

section \<open>Which nodes a single-result search tests\<close>

text \<open>The nodes on which a run of \<open>findOnce\<close> executes the body of \<open>if uni { ... }\<close>, in
  the order in which it does. The function follows the control flow of \<open>findOnce\<close>: after a
  test that returns or panics nothing more is tested, and the loop over the children goes
  on to the next sibling only when the recursive call came back with \<open>(nil, false)\<close>.\<close>

function findOnce_tested :: "html_Node option \<Rightarrow> string list \<Rightarrow> bool \<Rightarrow> bool \<Rightarrow> html_Node list"
  and findOnce_children_tested :: "html_Node option \<Rightarrow> string list \<Rightarrow> bool \<Rightarrow> html_Node list"
where
  "findOnce_tested None args uni strict = []"
| "findOnce_tested (Some n) args uni strict =
     (if uni then
        n # (case findOnce_test n args strict of
               Inl e \<Rightarrow> []
             | Inr True \<Rightarrow> []
             | Inr False \<Rightarrow> findOnce_children_tested (FirstChild n) args strict)
      else findOnce_children_tested (FirstChild n) args strict)"
| "findOnce_children_tested None args strict = []"
| "findOnce_children_tested (Some c) args strict =
     findOnce_tested (Some c) args True strict @
     (case findOnce (Some c) args True strict of
        Inl e \<Rightarrow> []
      | Inr (Some p) \<Rightarrow> []
      | Inr None \<Rightarrow> findOnce_children_tested (NextSibling c) args strict)"
  by pat_completeness auto
termination
  by (relation "measure (\<lambda>x. case x of Inl (p, _) \<Rightarrow> weight p | Inr (p, _) \<Rightarrow> weight_siblings p)")
     (auto simp: weight_def weight_siblings_def FirstChild_def NextSibling_def nodes_pos nodes_kids
           split: list.splits)

section \<open>Document order and matching, as the specification words them\<close>

text \<open>Document order is pre-order: a node comes before its descendants, and the whole
  subtree of a node comes before its next sibling. \<open>descendants_of t\<close> lists the positions
  of the proper descendants of \<open>t\<close> in that order; \<open>positions l cs\<close> does so for the
  consecutive siblings \<open>cs\<close> (and their subtrees) that have the siblings \<open>l\<close> before them.\<close>

fun descendants_of :: "tree \<Rightarrow> html_Node list"
  and positions :: "tree list \<Rightarrow> tree list \<Rightarrow> html_Node list"
where
  "descendants_of (Tree t d a cs) = positions [] cs"
| "positions l [] = []"
| "positions l (c # cs) = At l c cs # descendants_of c @ positions (c # l) cs"

definition descendants :: "html_Node \<Rightarrow> html_Node list" where
  "descendants n = descendants_of (here n)"

text \<open>A node, its descendants, and the same for each sibling after it, in document order.\<close>

definition following :: "html_Node option \<Rightarrow> html_Node list" where
  "following p = (case p of None \<Rightarrow> [] | Some c \<Rightarrow> positions (lefts c) (here c # rights c))"

text \<open>The immediate children of a node, in order.\<close>

fun children_at :: "tree list \<Rightarrow> tree list \<Rightarrow> html_Node list" where
  "children_at l [] = []"
| "children_at l (c # cs) = At l c cs # children_at (c # l) cs"

text \<open>A well-formed query: a tag-name constraint (empty for the wildcard) and at most one
  attribute constraint, passed as one or as three arguments.\<close>

datatype query = Query (tag: string) (constraint: "(string \<times> string) option")

definition query_args :: "query \<Rightarrow> string list" where
  "query_args q = (case constraint q of None \<Rightarrow> [tag q] | Some (name, v) \<Rightarrow> [tag q, name, v])"

text \<open>Loose comparison: the value is one of the white-space separated tokens of the
  attribute's value. Strict comparison: the value is the whole attribute value.\<close>

definition loose_match :: "string \<Rightarrow> string \<Rightarrow> bool" where
  "loose_match attrValue v = (v \<in> set (Fields attrValue))"

definition strict_match :: "string \<Rightarrow> string \<Rightarrow> bool" where
  "strict_match attrValue v = (attrValue = v)"

definition satisfies :: "bool \<Rightarrow> string \<times> string \<Rightarrow> Attribute \<Rightarrow> bool" where
  "satisfies strict c a =
     (Key a = fst c \<and>
      (if strict then strict_match (Val a) (snd c) else loose_match (Val a) (snd c)))"

text \<open>A node matches a query when it is an element, its tag is the constraint or the
  constraint is the wildcard, and, when an attribute constraint is given, it carries at
  least one attribute pair that satisfies the comparison.\<close>

definition is_match :: "query \<Rightarrow> bool \<Rightarrow> html_Node \<Rightarrow> bool" where
  "is_match q strict n =
     (tree.Type (here n) = ElementNode \<and> (tag q = [] \<or> Data (here n) = tag q) \<and>
      (case constraint q of
         None \<Rightarrow> True
       | Some c \<Rightarrow> list_ex (satisfies strict c) (Attr (here n))))"

text \<open>The elements of a list up to and including the first that satisfies \<open>P\<close>.\<close>

fun upto_first :: "('a \<Rightarrow> bool) \<Rightarrow> 'a list \<Rightarrow> 'a list" where
  "upto_first P [] = []"
| "upto_first P (x # xs) = (if P x then [x] else x # upto_first P xs)"

section \<open>Example documents\<close>

definition el :: "string \<Rightarrow> Attribute list \<Rightarrow> tree list \<Rightarrow> tree" where
  "el name attrs cs = Tree ElementNode name attrs cs"

definition tx :: "string \<Rightarrow> tree" where
  "tx s = Tree TextNode s [] []"

definition at :: "string \<Rightarrow> string \<Rightarrow> Attribute" where
  "at k v = \<lparr>Namespace = [], Key = k, Val = v\<rparr>"

text \<open>The query result for the root element of a document, as parsing returns it.\<close>

definition top :: "tree \<Rightarrow> Root" where
  "top t = \<lparr>Node = Some (At [] t []), NodeValue = Data t, Root.Error = None\<rparr>"

text \<open>\<open><html><body><div id="0"><div id="1">Just two divs peacing out</div></div>check<div
  id="2">One more</div></body></html>\<close>\<close>

definition divs_body :: tree where
  "divs_body =
     el ''body'' []
       [el ''div'' [at ''id'' ''0''] [el ''div'' [at ''id'' ''1''] [tx ''Just two divs peacing out'']],
        tx ''check'',
        el ''div'' [at ''id'' ''2''] [tx ''One more'']]"

definition divs_doc :: tree where
  "divs_doc = el ''html'' [] [divs_body]"

text \<open>The position of \<open><div id="1">\<close> in \<open>divs_doc\<close>: the only child of \<open><div id="0">\<close>.\<close>

definition div1 :: html_Node where
  "div1 = At [] (el ''div'' [at ''id'' ''1''] [tx ''Just two divs peacing out'']) []"

text \<open>What the parser returns for \<open><!DOCTYPE html><!-- c -->\<close> followed by \<open>divs_doc\<close>: a
  document node with a doctype, a comment and the root element as children.\<close>

definition parsed_doc :: html_Node where
  "parsed_doc =
     At [] (Tree DocumentNode [] []
              [Tree DoctypeNode ''html'' [] [], Tree CommentNode '' c '' [] [], divs_doc]) []"

text \<open>The root element of \<open>parsed_doc\<close>, after its two siblings.\<close>

definition parsed_root :: html_Node where
  "parsed_root = At [Tree CommentNode '' c '' [] [], Tree DoctypeNode ''html'' [] []] divs_doc []"

text \<open>The result of a \<open>Find\<close> or \<open>FindStrict\<close> that found nothing.\<close>

definition not_found :: Root where
  "not_found =
     \<lparr>Node = None, NodeValue = [],
      Root.Error = Some \<lparr>Error.Type = ErrElementNotFound,
                         msg = ''given element and attriabutes not found''\<rparr>\<rparr>"

text \<open>Shallow text as specified: the content of the first direct child that is a text
  node and not white space only, and the empty string when there is none.\<close>

definition shallow_text :: "html_Node \<Rightarrow> string" where
  "shallow_text n =
     (case find (\<lambda>c. tree.Type c = TextNode \<and> \<not> onlyWhitespace (Data c)) (kids (here n)) of
        None \<Rightarrow> []
      | Some c \<Rightarrow> Data c)"

text \<open>\<open><li><a href="hello.jsp">JSP page</a> right?</li>\<close>\<close>

definition li_link_first :: tree where
  "li_link_first = el ''li'' [] [el ''a'' [at ''href'' ''hello.jsp''] [tx ''JSP page''], tx '' right?'']"

text \<open>\<open><div> <b></b>One more</div>\<close>\<close>

definition div_blank_first :: tree where
  "div_blank_first = el ''div'' [] [tx '' '', el ''b'' [] [], tx ''One more'']"

text \<open>\<open><svg><a xlink:href="x" href="x"></a></svg>\<close>: the parser puts the prefix of a
  foreign attribute into \<open>Namespace\<close>, so both pairs have the key \<open>href\<close>.\<close>

definition svg_link :: tree where
  "svg_link = el ''a'' [\<lparr>Namespace = ''xlink'', Key = ''href'', Val = ''x''\<rparr>, at ''href'' ''x''] []"

definition svg_doc :: tree where
  "svg_doc = el ''svg'' [] [svg_link]"

text \<open>A single query result holds exactly one of a node and an error.\<close>

definition single_ok :: "Root \<Rightarrow> bool" where
  "single_ok q = ((Node q = None) \<noteq> (Root.Error q = None))"

text \<open>A collection result: every entry holds a node and no error, and \<open>Len\<close> is the
  length of the sequence.\<close>

definition entries_ok :: "Roots \<Rightarrow> bool" where
  "entries_ok rs =
     (Len rs = int (length (Roots rs)) \<and>
      list_all (\<lambda>x. Node x \<noteq> None \<and> Root.Error x = None) (Roots rs))"


text \<open>How many times the closure of \<open>findAllofem\<close> appends a node it tests: once for a
  candidate when the query has no attribute constraint, and otherwise once for every
  attribute pair of the candidate that satisfies the constraint.\<close>

definition occurrences :: "query \<Rightarrow> bool \<Rightarrow> html_Node \<Rightarrow> nat" where
  "occurrences q strict n =
     (if tree.Type (here n) = ElementNode \<and> (tag q = [] \<or> Data (here n) = tag q)
      then (case constraint q of
              None \<Rightarrow> 1
            | Some c \<Rightarrow> length (filter (satisfies strict c) (Attr (here n))))
      else 0)"

definition copies :: "query \<Rightarrow> bool \<Rightarrow> html_Node list \<Rightarrow> html_Node list" where
  "copies q strict xs = concat (map (\<lambda>m. replicate (occurrences q strict m) m) xs)"


section \<open>Document order and the navigation links\<close>

lemma following_None: "following None = []"
  by (simp add: following_def)

lemma following_Some: "following (Some c) = c # descendants c @ following (NextSibling c)"
  by (cases c) (simp add: following_def descendants_def NextSibling_def split: list.splits)

lemma descendants_FirstChild: "descendants n = following (FirstChild n)"
  by (cases n, cases "here n")
     (auto simp add: following_def descendants_def FirstChild_def split: list.splits)

lemma find_append_first:
  "find P (xs @ ys) = (case find P xs of None \<Rightarrow> find P ys | Some x \<Rightarrow> Some x)"
  by (induction xs) auto

lemma upto_first_append:
  "upto_first P (xs @ ys) =
     (case find P xs of None \<Rightarrow> xs @ upto_first P ys | Some x \<Rightarrow> upto_first P xs)"
  by (induction xs) (auto split: option.splits)

lemma upto_first_takeWhile:
  "find P xs = Some m \<Longrightarrow> upto_first P xs = takeWhile (\<lambda>x. \<not> P x) xs @ [m]"
  by (induction xs) (auto split: if_splits)

lemma upto_first_none: "find P xs = None \<Longrightarrow> upto_first P xs = xs"
  by (induction xs) (auto split: if_splits)

section \<open>The matcher\<close>

lemma containsField_set: "containsField fs v = (v \<in> set fs)"
  by (induction fs) auto

lemma findOnce_attrs_query:
  "findOnce_attrs attrs [t, name, v] strict = Inr (list_ex (satisfies strict (name, v)) attrs)"
  by (induction attrs)
     (auto simp: satisfies_def strict_match_def loose_match_def attributeAndValueEquals_def
                 attributeContainsValue_def containsField_set)

lemma findOnce_test_query: "findOnce_test n (query_args q) strict = Inr (is_match q strict n)"
  by (cases q)
     (auto simp: findOnce_test_def query_args_def is_match_def matchElementName_def
                 findOnce_attrs_query split: option.splits)

section \<open>Single-result search\<close>

lemma findOnce_query_both:
  "(\<forall>n. p = Some n \<longrightarrow> args = query_args q \<longrightarrow>
      findOnce p args uni strict =
        Inr (find (is_match q strict) (if uni then n # descendants n else descendants n)))"
  "(args = query_args q \<longrightarrow>
      findOnce_children p' args strict = Inr (find (is_match q strict) (following p')))"
proof (induction p args uni strict and p' args strict rule: findOnce_findOnce_children.induct)
  case (1 args uni strict)
  then show ?case by simp
next
  case (2 n args uni strict)
  then show ?case
    by (auto simp: findOnce_test_query descendants_FirstChild)
next
  case (3 args strict)
  then show ?case by (simp add: following_None)
next
  case (4 c args strict)
  then show ?case
    by (auto simp: following_Some find_append_first simp del: findOnce.simps
             split: sum.splits option.splits)
qed

lemma findOnce_query:
  "findOnce (Some n) (query_args q) False strict = Inr (find (is_match q strict) (descendants n))"
  using findOnce_query_both(1)[of "Some n" "query_args q" q False strict] by simp

lemma findOnce_tested_both:
  "(\<forall>n. p = Some n \<longrightarrow> args = query_args q \<longrightarrow>
      findOnce_tested p args uni strict =
        upto_first (is_match q strict) (if uni then n # descendants n else descendants n))"
  "(args = query_args q \<longrightarrow>
      findOnce_children_tested p' args strict = upto_first (is_match q strict) (following p'))"
proof (induction p args uni strict and p' args strict
       rule: findOnce_tested_findOnce_children_tested.induct)
  case (1 args uni strict)
  then show ?case by simp
next
  case (2 n args uni strict)
  then show ?case
    by (auto simp: findOnce_test_query descendants_FirstChild)
next
  case (3 args strict)
  then show ?case by (simp add: following_None)
next
  case (4 c args strict)
  show ?case
  proof
    assume a: "args = query_args q"
    have r: "findOnce (Some c) args True strict
               = Inr (find (is_match q strict) (c # descendants c))"
      using findOnce_query_both(1)[of "Some c" args q True strict] a by simp
    have t: "findOnce_tested (Some c) args True strict
               = upto_first (is_match q strict) (c # descendants c)"
      using 4(1) a by simp
    show "findOnce_children_tested (Some c) args strict
            = upto_first (is_match q strict) (following (Some c))"
    proof (cases "find (is_match q strict) (c # descendants c)")
      case None
      then have "findOnce_children_tested (NextSibling c) args strict
                   = upto_first (is_match q strict) (following (NextSibling c))"
        using 4(2)[of None] r a by simp
      with None r t show ?thesis
        using upto_first_append[of "is_match q strict" "c # descendants c"
                                   "following (NextSibling c)"]
        by (simp add: following_Some upto_first_none
                 del: findOnce.simps findOnce_tested.simps find.simps upto_first.simps)
    next
      case (Some m)
      with r t show ?thesis
        using upto_first_append[of "is_match q strict" "c # descendants c"
                                   "following (NextSibling c)"]
        by (simp add: following_Some
                 del: findOnce.simps findOnce_tested.simps find.simps upto_first.simps)
    qed
  qed
qed

lemma findOnce_tested_query:
  "findOnce_tested (Some n) (query_args q) False strict
     = upto_first (is_match q strict) (descendants n)"
  using findOnce_tested_both(1)[of "Some n" "query_args q" q False strict] by simp

text \<open>Claim C3. For every node and every well-formed query with a matching descendant,
  \<open>Find\<close> (and \<open>FindStrict\<close>, when \<open>strict\<close>) returns the first matching element in
  document order, and the search tests exactly the descendants that come before that
  element in document order and then the element itself: nothing after the first match is
  visited.\<close>

theorem Find_first_match_in_document_order:
  assumes "Node r = Some n"
    and "find (is_match q strict) (descendants n) = Some m"
  shows "(if strict then FindStrict r (query_args q) else Find r (query_args q)) = Inr (wrap m)
         \<and> findOnce_tested (Node r) (query_args q) False strict
             = takeWhile (\<lambda>x. \<not> is_match q strict x) (descendants n) @ [m]"
proof -
  have "findOnce (Node r) (query_args q) False strict = Inr (Some m)"
    using assms by (simp add: findOnce_query del: findOnce.simps)
  then have "(if strict then FindStrict r (query_args q) else Find r (query_args q))
               = Inr (wrap m)"
    by (cases strict) (simp_all add: Find_def FindStrict_def wrap_def del: findOnce.simps)
  moreover have "findOnce_tested (Node r) (query_args q) False strict
                   = takeWhile (\<lambda>x. \<not> is_match q strict x) (descendants n) @ [m]"
    using assms by (simp add: findOnce_tested_query upto_first_takeWhile del: findOnce_tested.simps)
  ultimately show ?thesis by simp
qed

theorem Find_first_match_in_document_order_witness:
  "Find (top divs_doc) [''div'', ''id'', ''1''] = Inr (wrap div1)
   \<and> map (Data \<circ> here)
         (findOnce_tested (Node (top divs_doc)) [''div'', ''id'', ''1''] False False)
       = [''body'', ''div'', ''div'']"
proof -
  have h1: "Node (top divs_doc) = Some (At [] divs_doc [])"
    by (simp add: top_def)
  have h2: "find (is_match (Query ''div'' (Some (''id'', ''1''))) False)
              (descendants (At [] divs_doc [])) = Some div1"
    by code_simp
  have h3: "map (Data \<circ> here)
              (takeWhile (\<lambda>x. \<not> is_match (Query ''div'' (Some (''id'', ''1''))) False x)
                 (descendants (At [] divs_doc [])) @ [div1]) = [''body'', ''div'', ''div'']"
    by code_simp
  have a: "query_args (Query ''div'' (Some (''id'', ''1''))) = [''div'', ''id'', ''1'']"
    by (simp add: query_args_def)
  show ?thesis
    using Find_first_match_in_document_order[OF h1 h2] h3 by (simp add: a)
qed

section \<open>Attribute comparison\<close>

text \<open>Every field that \<open>strings.Fields\<close> returns is non-empty and holds no ASCII white
  space: a constraint value that is empty or contains a blank never matches loosely.\<close>

lemma spaceWidth_ascii: "asciiSpace c \<Longrightarrow> spaceWidth (c # cs) = 1"
  by (simp add: spaceWidth_def)

lemma Fields_from_fields:
  "\<forall>c \<in> set cur. \<not> asciiSpace c \<Longrightarrow> f \<in> set (Fields_from cur s) \<Longrightarrow>
     f \<noteq> [] \<and> (\<forall>c \<in> set f. \<not> asciiSpace c)"
proof (induction cur s rule: Fields_from.induct)
  case (1 cur)
  then show ?case by (auto split: if_splits)
next
  case (2 cur c cs)
  note clean = "2.prems"(1) and mem = "2.prems"(2)
  show ?case
  proof (cases "0 < spaceWidth (c # cs)")
    case True
    with mem have "f \<in> set (if cur = [] then [] else [cur])
                    \<or> f \<in> set (Fields_from [] (drop (spaceWidth (c # cs)) (c # cs)))"
      by (auto simp del: Fields_from.simps simp add: Fields_from.simps(2)[of cur c cs])
    then show ?thesis
    proof
      assume "f \<in> set (if cur = [] then [] else [cur])"
      with clean show ?thesis by (auto split: if_splits)
    next
      assume "f \<in> set (Fields_from [] (drop (spaceWidth (c # cs)) (c # cs)))"
      with "2.IH"(1)[OF True] show ?thesis by simp
    qed
  next
    case False
    then have nc: "\<not> asciiSpace c"
      using spaceWidth_ascii[of c cs] by auto
    from False mem have "f \<in> set (Fields_from (cur @ [c]) cs)"
      by (simp del: Fields_from.simps add: Fields_from.simps(2)[of cur c cs])
    with "2.IH"(2)[OF False] clean nc show ?thesis by auto
  qed
qed

lemma Fields_fields: "f \<in> set (Fields s) \<Longrightarrow> f \<noteq> [] \<and> (\<forall>c \<in> set f. \<not> asciiSpace c)"
  using Fields_from_fields[of "[]" f s] by (simp add: Fields_def)

text \<open>Claim C4. Loose comparison of an attribute with a constraint succeeds exactly when
  the names are equal and the constraint value is one of the white-space separated fields
  of the attribute's value; strict comparison succeeds exactly when the names are equal
  and the whole attribute value is the constraint value.\<close>

theorem attribute_comparison:
  "attributeContainsValue attr attribute v
     = (Key attr = attribute \<and> v \<in> set (Fields (Val attr)))
   \<and> attributeAndValueEquals attr attribute v = (Key attr = attribute \<and> Val attr = v)"
  by (simp add: attributeContainsValue_def attributeAndValueEquals_def containsField_set)

text \<open>The value \<open>"a b c"\<close> loosely matches \<open>"b"\<close> but not \<open>"d"\<close>; it strictly matches
  \<open>"a b c"\<close>, and neither \<open>"c b a"\<close> nor \<open>"a b"\<close>.\<close>

theorem attribute_comparison_witness:
  "attributeContainsValue (at ''class'' ''a b c'') ''class'' ''b''
   \<and> \<not> attributeContainsValue (at ''class'' ''a b c'') ''class'' ''d''
   \<and> attributeAndValueEquals (at ''class'' ''a b c'') ''class'' ''a b c''
   \<and> \<not> attributeAndValueEquals (at ''class'' ''a b c'') ''class'' ''c b a''
   \<and> \<not> attributeAndValueEquals (at ''class'' ''a b c'') ''class'' ''a b''"
proof -
  have f: "Fields ''a b c'' = [''a'', ''b'', ''c'']"
    by code_simp
  show ?thesis
    using attribute_comparison[of "at ''class'' ''a b c''" "''class''" "''b''"]
          attribute_comparison[of "at ''class'' ''a b c''" "''class''" "''d''"]
          attribute_comparison[of "at ''class'' ''a b c''" "''class''" "''a b c''"]
          attribute_comparison[of "at ''class'' ''a b c''" "''class''" "''c b a''"]
          attribute_comparison[of "at ''class'' ''a b c''" "''class''" "''a b''"]
    by (simp add: at_def f)
qed

section \<open>The starting node of a search\<close>

lemma descendants_smaller_both:
  "(m \<in> set (descendants_of t) \<longrightarrow> nodes (here m) < nodes t)"
  "(m \<in> set (positions l cs) \<longrightarrow> nodes (here m) \<le> sum_list (map nodes cs))"
  by (induction t and l cs rule: descendants_of_positions.induct) auto

lemma descendants_proper: "m \<in> set (descendants n) \<Longrightarrow> m \<noteq> n"
  using descendants_smaller_both(1)[of m "here n"] by (auto simp: descendants_def)

lemma findOnce_result_both:
  "(\<forall>n. p = Some n \<longrightarrow> findOnce p args uni strict = Inr (Some m) \<longrightarrow>
      m \<in> set (if uni then n # descendants n else descendants n))"
  "(findOnce_children p' args strict = Inr (Some m) \<longrightarrow> m \<in> set (following p'))"
proof (induction p args uni strict and p' args strict rule: findOnce_findOnce_children.induct)
  case (1 args uni strict)
  then show ?case by simp
next
  case (2 n args uni strict)
  then show ?case
    by (auto simp: descendants_FirstChild split: sum.splits bool.splits)
next
  case (3 args strict)
  then show ?case by simp
next
  case (4 c args strict)
  then show ?case
    by (auto simp: following_Some simp del: findOnce.simps split: sum.splits option.splits)
qed

lemma findOnce_tested_subset_both:
  "(\<forall>n. p = Some n \<longrightarrow>
      set (findOnce_tested p args uni strict) \<subseteq> set (if uni then n # descendants n else descendants n))"
  "set (findOnce_children_tested p' args strict) \<subseteq> set (following p')"
proof (induction p args uni strict and p' args strict
       rule: findOnce_tested_findOnce_children_tested.induct)
  case (1 args uni strict)
  then show ?case by simp
next
  case (2 n args uni strict)
  show ?case
  proof (cases uni)
    case True
    show ?thesis
    proof (cases "findOnce_test n args strict = Inr False")
      case f: True
      from 2(1)[OF True f] have "set (findOnce_children_tested (FirstChild n) args strict)
                                   \<subseteq> set (following (FirstChild n))"
        by simp
      with True f show ?thesis
        by (auto simp: descendants_FirstChild)
    next
      case False
      with True show ?thesis
        by (auto split: sum.splits bool.splits)
    qed
  next
    case False
    with 2(2) show ?thesis
      by (auto simp: descendants_FirstChild)
  qed
next
  case (3 args strict)
  then show ?case by simp
next
  case (4 c args strict)
  then show ?case
    by (auto simp: following_Some simp del: findOnce.simps findOnce_tested.simps split: sum.splits option.splits)
qed

lemma findAllofem_attrs_appends:
  "findAllofem_attrs attrs n args strict acc = Inr out \<Longrightarrow> \<exists>k. out = acc @ replicate k n"
proof (induction attrs arbitrary: acc)
  case Nil
  then show ?case by (auto intro: exI[of _ 0])
next
  case (Cons a attrs)
  show ?case
  proof (cases "length args < 3")
    case True
    with Cons.prems show ?thesis by simp
  next
    case False
    show ?thesis
    proof (cases "(strict \<and> attributeAndValueEquals a (args ! 1) (args ! 2)) \<or>
              (\<not> strict \<and> attributeContainsValue a (args ! 1) (args ! 2))")
      case True
      with False Cons.prems have "findAllofem_attrs attrs n args strict (acc @ [n]) = Inr out"
        by auto
      from Cons.IH[OF this] obtain k where "out = (acc @ [n]) @ replicate k n" by blast
      then have "out = acc @ replicate (Suc k) n" by simp
      then show ?thesis by blast
    next
      case b: False
      with False Cons.prems have "findAllofem_attrs attrs n args strict acc = Inr out"
        by auto
      from Cons.IH[OF this] show ?thesis .
    qed
  qed
qed

lemma findAllofem_test_appends:
  "findAllofem_test n args strict acc = Inr out \<Longrightarrow> \<exists>k. out = acc @ replicate k n"
  unfolding findAllofem_test_def
  by (auto split: if_splits dest: findAllofem_attrs_appends intro: exI[of _ 0] exI[of _ 1])

lemma findAllofem_result_both:
  "(\<forall>n out. p = Some n \<longrightarrow> findAllofem_f strict p args uni acc = Inr out \<longrightarrow>
      (\<exists>new. out = acc @ new \<and> set new \<subseteq> set (if uni then n # descendants n else descendants n)))"
  "(\<forall>out. findAllofem_children strict p' args acc' = Inr out \<longrightarrow>
      (\<exists>new. out = acc' @ new \<and> set new \<subseteq> set (following p')))"
proof (induction strict p args uni acc and strict p' args acc' rule: findAllofem_f_findAllofem_children.induct)
  case (1 strict args uni nodeLinks)
  then show ?case by simp
next
  case (2 strict n args uni nodeLinks)
  show ?case
  proof (intro allI impI)
    fix n' out
    assume eq: "Some n = Some n'" and run: "findAllofem_f strict (Some n) args uni nodeLinks = Inr out"
    show "\<exists>new. out = nodeLinks @ new \<and> set new \<subseteq> set (if uni then n' # descendants n' else descendants n')"
    proof (cases uni)
      case True
      with run obtain nl where t: "findAllofem_test n args strict nodeLinks = Inr nl"
        and c: "findAllofem_children strict (FirstChild n) args nl = Inr out"
        by (auto split: sum.splits)
      from findAllofem_test_appends[OF t] obtain k where k: "nl = nodeLinks @ replicate k n" by blast
      from 2(1)[OF True t] c obtain new where "out = nl @ new" "set new \<subseteq> set (following (FirstChild n))"
        by blast
      with k eq True show ?thesis
        by (auto simp: descendants_FirstChild intro!: exI[of _ "replicate k n @ new"])
    next
      case False
      with run have c: "findAllofem_children strict (FirstChild n) args nodeLinks = Inr out"
        by simp
      from 2(2)[OF False] c obtain new where "out = nodeLinks @ new" "set new \<subseteq> set (following (FirstChild n))"
        by blast
      with eq False show ?thesis
        by (auto simp: descendants_FirstChild)
    qed
  qed
next
  case (3 strict args nodeLinks)
  then show ?case by simp
next
  case (4 strict c args nodeLinks)
  show ?case
  proof (intro allI impI)
    fix out
    assume run: "findAllofem_children strict (Some c) args nodeLinks = Inr out"
    then obtain nl where f: "findAllofem_f strict (Some c) args True nodeLinks = Inr nl"
      and r: "findAllofem_children strict (NextSibling c) args nl = Inr out"
      by (auto simp del: findAllofem_f.simps split: sum.splits)
    from 4(1) f obtain new1 where n1: "nl = nodeLinks @ new1" "set new1 \<subseteq> set (c # descendants c)"
      by (auto simp del: findAllofem_f.simps)
    from 4(2)[OF f] r obtain new2 where n2: "out = nl @ new2" "set new2 \<subseteq> set (following (NextSibling c))"
      by blast
    from n1 n2 show "\<exists>new. out = nodeLinks @ new \<and> set new \<subseteq> set (following (Some c))"
      by (auto simp: following_Some intro!: exI[of _ "new1 @ new2"])
  qed
qed

lemma findOnce_skips_start:
  assumes "findOnce (Some n) args False strict = Inr (Some m)"
  shows "m \<in> set (descendants n) \<and> m \<noteq> n"
  using findOnce_result_both(1)[of "Some n" args False strict m] assms descendants_proper[of m n]
  by (auto simp del: findOnce.simps)

lemma findAllofem_skips_start:
  assumes "findAllofem (Some n) args strict = Inr ms"
  shows "set ms \<subseteq> set (descendants n) \<and> n \<notin> set ms"
proof -
  from assms findAllofem_result_both(1)[of "Some n" strict args False "[]"]
  have "set ms \<subseteq> set (descendants n)"
    by (auto simp: findAllofem_def simp del: findAllofem_f.simps)
  then show ?thesis using descendants_proper[of n n] by auto
qed

lemma findOnce_start_irrelevant:
  "kids (here n') = kids (here n) \<Longrightarrow>
     findOnce (Some n') args False strict = findOnce (Some n) args False strict"
  by (simp add: FirstChild_def)

lemma findAllofem_start_irrelevant:
  "kids (here n') = kids (here n) \<Longrightarrow>
     findAllofem (Some n') args strict = findAllofem (Some n) args strict"
  by (simp add: findAllofem_def FirstChild_def)

text \<open>Claim C2. A query evaluates only the descendants of the node it is invoked on. For
  every query result \<open>r\<close> with a node \<open>n\<close> and all arguments: a node that \<open>Find\<close> or
  \<open>FindStrict\<close> returns, and every node that \<open>FindAll\<close> or \<open>FindAllStrict\<close> returns, is a
  proper descendant of \<open>n\<close> and is not \<open>n\<close>; the single-result search never tests \<open>n\<close>;
  and the outcome of each of the four queries is the same from any other starting node
  with the same children, whatever its own kind, tag and attributes are.\<close>

theorem queries_skip_starting_node:
  assumes "Node r = Some n"
  shows "(Find r args = Inr q \<longrightarrow>
            Node q \<noteq> Some n \<and> (\<forall>m. Node q = Some m \<longrightarrow> m \<in> set (descendants n)))
       \<and> (FindStrict r args = Inr q \<longrightarrow>
            Node q \<noteq> Some n \<and> (\<forall>m. Node q = Some m \<longrightarrow> m \<in> set (descendants n)))
       \<and> (FindAll r args = Inr rs \<longrightarrow>
            (\<forall>x \<in> set (Roots rs). Node x \<noteq> Some n \<and> (\<exists>m \<in> set (descendants n). Node x = Some m)))
       \<and> (FindAllStrict r args = Inr rs \<longrightarrow>
            (\<forall>x \<in> set (Roots rs). Node x \<noteq> Some n \<and> (\<exists>m \<in> set (descendants n). Node x = Some m)))
       \<and> n \<notin> set (findOnce_tested (Some n) args False strict)
       \<and> (Node r' = Some n' \<and> kids (here n') = kids (here n) \<longrightarrow>
            Find r' args = Find r args \<and> FindStrict r' args = FindStrict r args \<and>
            FindAll r' args = FindAll r args \<and> FindAllStrict r' args = FindAllStrict r args)"
proof -
  have single: "findOnce (Some n) args False s = Inr (Some m) \<Longrightarrow> m \<in> set (descendants n) \<and> m \<noteq> n"
    for s m by (rule findOnce_skips_start)
  have c1: "Find r args = Inr q \<longrightarrow>
            Node q \<noteq> Some n \<and> (\<forall>m. Node q = Some m \<longrightarrow> m \<in> set (descendants n))"
    using assms single[of False]
    by (auto simp: Find_def simp del: findOnce.simps split: sum.splits option.splits)
  have c2: "FindStrict r args = Inr q \<longrightarrow>
            Node q \<noteq> Some n \<and> (\<forall>m. Node q = Some m \<longrightarrow> m \<in> set (descendants n))"
    using assms single[of True]
    by (auto simp: FindStrict_def simp del: findOnce.simps split: sum.splits option.splits)
  have multi: "findAllofem (Some n) args s = Inr ms \<Longrightarrow> x \<in> set (map wrap ms) \<Longrightarrow>
                 Node x \<noteq> Some n \<and> (\<exists>m \<in> set (descendants n). Node x = Some m)" for s ms x
    using findAllofem_skips_start[of n args s ms] by (auto simp: wrap_def)
  have c3: "FindAll r args = Inr rs \<longrightarrow>
            (\<forall>x \<in> set (Roots rs). Node x \<noteq> Some n \<and> (\<exists>m \<in> set (descendants n). Node x = Some m))"
  proof (intro impI ballI)
    fix x assume a: "FindAll r args = Inr rs" and x: "x \<in> set (Roots rs)"
    from a assms obtain ms where ms: "findAllofem (Some n) args False = Inr ms"
      and rs: "Roots rs = (if length ms = 0 then [] else map wrap ms)"
      by (auto simp: FindAll_def split: sum.splits if_splits)
    from x rs have "x \<in> set (map wrap ms)" by (auto split: if_splits)
    from multi[OF ms this]
    show "Node x \<noteq> Some n \<and> (\<exists>m \<in> set (descendants n). Node x = Some m)" .
  qed
  have c4: "FindAllStrict r args = Inr rs \<longrightarrow>
            (\<forall>x \<in> set (Roots rs). Node x \<noteq> Some n \<and> (\<exists>m \<in> set (descendants n). Node x = Some m))"
  proof (intro impI ballI)
    fix x assume a: "FindAllStrict r args = Inr rs" and x: "x \<in> set (Roots rs)"
    from a assms obtain ms where ms: "findAllofem (Some n) args True = Inr ms"
      and rs: "Roots rs = (if length ms = 0 then [] else map wrap ms)"
      by (auto simp: FindAllStrict_def split: sum.splits if_splits)
    from x rs have "x \<in> set (map wrap ms)" by (auto split: if_splits)
    from multi[OF ms this]
    show "Node x \<noteq> Some n \<and> (\<exists>m \<in> set (descendants n). Node x = Some m)" .
  qed
  have c5: "n \<notin> set (findOnce_tested (Some n) args False strict)"
    using findOnce_tested_subset_both(1)[of "Some n" args False strict] descendants_proper[of n n]
    by (auto simp del: findOnce_tested.simps)
  have c6: "Node r' = Some n' \<and> kids (here n') = kids (here n) \<longrightarrow>
            Find r' args = Find r args \<and> FindStrict r' args = FindStrict r args \<and>
            FindAll r' args = FindAll r args \<and> FindAllStrict r' args = FindAllStrict r args"
    using assms
    by (auto simp: Find_def FindStrict_def FindAll_def FindAllStrict_def
                   findOnce_start_irrelevant[of n' n] findAllofem_start_irrelevant[of n' n]
             simp del: findOnce.simps)
  from c1 c2 c3 c4 c5 c6 show ?thesis by blast
qed

theorem queries_skip_starting_node_witness:
  "Find (top divs_doc) [''''] = Inr (wrap (At [] divs_body []))
   \<and> At [] divs_body [] \<noteq> At [] divs_doc []
   \<and> At [] divs_doc [] \<notin> set (findOnce_tested (Some (At [] divs_doc [])) [''''] False False)
   \<and> FindAll (top divs_doc) [''html'']
       = Inr \<lparr>Roots = [], Len = 0,
               Roots.Error =
                 Some (newError ErrElementsNotFound ''no elements or attriabutes found'')\<rparr>"
proof -
  have h: "Node (top divs_doc) = Some (At [] divs_doc [])"
    by (simp add: top_def)
  have e1: "Find (top divs_doc) [''''] = Inr (wrap (At [] divs_body []))"
    by code_simp
  have e2: "FindAll (top divs_doc) [''html'']
              = Inr \<lparr>Roots = [], Len = 0,
                      Roots.Error =
                        Some (newError ErrElementsNotFound ''no elements or attriabutes found'')\<rparr>"
    by code_simp
  have n: "Node (wrap (At [] divs_body [])) = Some (At [] divs_body [])"
    by (simp add: wrap_def)
  from queries_skip_starting_node[OF h, of "['''']" "wrap (At [] divs_body [])" _ False] e1 n
  have "At [] divs_body [] \<noteq> At [] divs_doc []
        \<and> At [] divs_doc [] \<notin> set (findOnce_tested (Some (At [] divs_doc [])) [''''] False False)"
    by auto
  with e1 e2 show ?thesis by simp
qed

section \<open>Queries on a result without a node\<close>

text \<open>Claim C1, as the code has it. No query method reads the \<open>Error\<close> field. For every
  query result that carries no node, each query method dereferences the absent node: the
  call panics with a nil-pointer dereference and returns nothing, so the original error
  is not propagated.\<close>

theorem query_on_absent_node_panics:
  assumes "Node r = None"
  shows "Find r args = Inl NilPointerDereference
       \<and> FindStrict r args = Inl NilPointerDereference
       \<and> Title r = Inl NilPointerDereference
       \<and> FindAll r args = Inl NilPointerDereference
       \<and> FindAllStrict r args = Inl NilPointerDereference
       \<and> FindNextSibling r = Inl NilPointerDereference
       \<and> FindPrevSibling r = Inl NilPointerDereference
       \<and> FindNextElementSibling r = Inl NilPointerDereference
       \<and> FindPrevElementSibling r = Inl NilPointerDereference
       \<and> Children r = Inl NilPointerDereference
       \<and> Text r = Inl NilPointerDereference"
  using assms
  by (simp add: Find_def FindStrict_def Title_def FindAll_def FindAllStrict_def findAllofem_def
                FindNextSibling_def FindPrevSibling_def Children_def Text_def)

theorem query_on_absent_node_panics_witness:
  "Node not_found = None
   \<and> Find not_found [''anything''] = Inl NilPointerDereference
   \<and> FindAll not_found [''anything''] = Inl NilPointerDereference
   \<and> Text not_found = Inl NilPointerDereference"
proof -
  have h: "Node not_found = None"
    by (simp add: not_found_def)
  from query_on_absent_node_panics[OF h, of "[''anything'']"] h show ?thesis
    by simp
qed

theorem chained_Find_counterexample:
  "Find (top divs_doc) [''missing''] = Inr not_found
   \<and> Root.Error not_found \<noteq> None
   \<and> Find not_found [''anything''] \<noteq> Inr not_found
   \<and> Find not_found [''anything''] = Inl NilPointerDereference"
proof -
  have "Find (top divs_doc) [''missing''] = Inr not_found"
    by code_simp
  moreover have "Find not_found [''anything''] = Inl NilPointerDereference"
    by (simp add: Find_def not_found_def)
  ultimately show ?thesis
    by (simp add: not_found_def)
qed

section \<open>Queries with unsupported argument counts\<close>

lemma findOnce_test_many_args: "4 \<le> length args \<Longrightarrow> findOnce_test n args strict = Inr False"
  by (auto simp: findOnce_test_def)

lemma findOnce_many_args_both:
  "(4 \<le> length args \<longrightarrow> p \<noteq> None \<longrightarrow> findOnce p args uni strict = Inr None)"
  "(4 \<le> length args \<longrightarrow> findOnce_children p' args strict = Inr None)"
proof (induction p args uni strict and p' args strict rule: findOnce_findOnce_children.induct)
  case (1 args uni strict)
  then show ?case by simp
next
  case (2 n args uni strict)
  show ?case
  proof (intro impI)
    assume a: "4 \<le> length args"
    from a have t: "findOnce_test n args strict = Inr False"
      by (rule findOnce_test_many_args)
    show "findOnce (Some n) args uni strict = Inr None"
    proof (cases uni)
      case True
      with 2(1)[OF True t] a t show ?thesis by simp
    next
      case False
      with 2(2)[OF False] a show ?thesis by simp
    qed
  qed
next
  case (3 args strict)
  then show ?case by simp
next
  case (4 c args strict)
  then show ?case
    by (auto simp del: findOnce.simps)
qed

lemma findAllofem_test_many_args:
  "4 \<le> length args \<Longrightarrow> findAllofem_test n args strict acc = Inr acc"
  by (auto simp: findAllofem_test_def)

lemma findAllofem_many_args_both:
  "(4 \<le> length args \<longrightarrow> p \<noteq> None \<longrightarrow> findAllofem_f strict p args uni acc = Inr acc)"
  "(4 \<le> length args \<longrightarrow> findAllofem_children strict p' args acc' = Inr acc')"
proof (induction strict p args uni acc and strict p' args acc'
       rule: findAllofem_f_findAllofem_children.induct)
  case (1 strict args uni nodeLinks)
  then show ?case by simp
next
  case (2 strict n args uni nodeLinks)
  show ?case
  proof (intro impI)
    assume a: "4 \<le> length args"
    from a have t: "findAllofem_test n args strict nodeLinks = Inr nodeLinks"
      by (rule findAllofem_test_many_args)
    show "findAllofem_f strict (Some n) args uni nodeLinks = Inr nodeLinks"
    proof (cases uni)
      case True
      with 2(1)[OF True t] a t show ?thesis by simp
    next
      case False
      with 2(2)[OF False] a show ?thesis by simp
    qed
  qed
next
  case (3 strict args nodeLinks)
  then show ?case by simp
next
  case (4 strict c args nodeLinks)
  show ?case
  proof (intro impI)
    assume a: "4 \<le> length args"
    from 4(1) a have f: "findAllofem_f strict (Some c) args True nodeLinks = Inr nodeLinks"
      by simp
    from 4(2)[OF f] a f
    show "findAllofem_children strict (Some c) args nodeLinks = Inr nodeLinks"
      by (simp del: findAllofem_f.simps)
  qed
qed

text \<open>Claim C6, as the code has it. The error taxonomy has no malformed-query kind and the
  searches reject nothing. A query with four or more arguments (more than one attribute
  pair) matches no node at all: \<open>Find\<close> and \<open>FindStrict\<close> return the element-not-found
  result, \<open>FindAll\<close> returns the empty collection with \<open>ErrElementsNotFound\<close>, and
  \<open>FindAllStrict\<close> returns the empty collection with an error.\<close>

theorem extra_arguments_match_nothing:
  assumes "Node r = Some n" and "4 \<le> length args"
  shows "Find r args = Inr not_found
       \<and> FindStrict r args = Inr not_found
       \<and> FindAll r args
           = Inr \<lparr>Roots = [], Len = 0,
                   Roots.Error =
                     Some (newError ErrElementsNotFound ''no elements or attriabutes found'')\<rparr>
       \<and> (\<exists>e. FindAllStrict r args = Inr \<lparr>Roots = [], Len = 0, Roots.Error = Some e\<rparr>)"
proof -
  have o: "findOnce (Node r) args False s = Inr None" for s
    using assms findOnce_many_args_both(1)[of args "Node r" False s] by simp
  have a: "findAllofem (Node r) args s = Inr []" for s
    using assms findAllofem_many_args_both(1)[of args "Node r" s False "[]"]
    by (simp add: findAllofem_def)
  from assms(2) have ne: "args \<noteq> []" by auto
  show ?thesis
    by (simp add: Find_def FindStrict_def FindAll_def FindAllStrict_def o a ne not_found_def)
qed

theorem extra_arguments_match_nothing_witness:
  "Find (top divs_doc) [''div'', ''id'', ''1'', ''id'', ''2''] = Inr not_found
   \<and> FindAll (top divs_doc) [''div'', ''id'', ''1'', ''id'', ''2'']
       = Inr \<lparr>Roots = [], Len = 0,
               Roots.Error =
                 Some (newError ErrElementsNotFound ''no elements or attriabutes found'')\<rparr>"
proof -
  have h: "Node (top divs_doc) = Some (At [] divs_doc [])"
    by (simp add: top_def)
  have l: "4 \<le> length [''div'', ''id'', ''1'', ''id'', ''2'']"
    by simp
  from extra_arguments_match_nothing[OF h l] show ?thesis
    by simp
qed

theorem extra_arguments_counterexample:
  "Find (top divs_doc) [''div'', ''id'', ''1''] = Inr (wrap div1)
   \<and> Find (top divs_doc) [''div'', ''id'', ''1'', ''id'', ''2''] = Inr not_found
   \<and> Root.Error not_found
       = Some \<lparr>Error.Type = ErrElementNotFound, msg = ''given element and attriabutes not found''\<rparr>"
proof -
  have "Find (top divs_doc) [''div'', ''id'', ''1''] = Inr (wrap div1)"
    by code_simp
  moreover have "Find (top divs_doc) [''div'', ''id'', ''1'', ''id'', ''2''] = Inr not_found"
    by code_simp
  ultimately show ?thesis
    by (simp add: not_found_def)
qed

text \<open>With two arguments the attribute loop reads \<open>args[2]\<close> as soon as it visits a
  candidate that has an attribute, and with no argument the test reads \<open>args[0]\<close> at the
  first element: both runs end in an index-out-of-range panic.\<close>

lemma short_argument_lists_panic:
  "Find (top divs_doc) [''div'', ''id''] = Inl IndexOutOfRange
   \<and> FindAll (top divs_doc) [''div'', ''id''] = Inl IndexOutOfRange
   \<and> Find (top divs_doc) [] = Inl IndexOutOfRange
   \<and> Find (top (el ''p'' [] [el ''b'' [] []])) [''b'', ''id'']
       = Inr not_found"
  by code_simp

section \<open>Shallow text\<close>

lemma Text_f_returns_both:
  "(p \<noteq> None \<or> k = None \<longrightarrow> (\<exists>s. Text_f k p = Inr s))"
  "(p' \<noteq> None \<or> k' = None \<longrightarrow> (\<exists>s. Text_k k' p' = Inr s))"
proof (induction k p and k' p' rule: Text_f_Text_k.induct)
  case (1 k)
  then show ?case by simp
next
  case (2 k n)
  show ?case
  proof (cases "tree.Type (here n) = TextNode")
    case True
    with 2(3) obtain s where "Text_k k (Some n) = Inr s" by blast
    with True show ?thesis
      by (subst Text_f.simps) simp
  next
    case False
    show ?thesis
    proof (cases "NextSibling n")
      case None
      with False show ?thesis
        by (subst Text_f.simps) simp
    next
      case (Some n')
      from 2(1)[OF False Some] obtain s where s: "Text_f k (Some n') = Inr s" by blast
      from 2(2)[OF False Some s] obtain s' where "Text_k k (Some n') = Inr s'" by blast
      with False Some s show ?thesis
        by (subst Text_f.simps) (simp del: Text_f.simps Text_k.simps)
    qed
  qed
next
  case (3 n)
  then show ?case by simp
next
  case (4 k)
  then show ?case by simp
next
  case (5 k n)
  show ?case
  proof (cases "onlyWhitespace (Data (here k))")
    case False
    then show ?thesis by simp
  next
    case True
    show ?thesis
    proof (cases "NextSibling n")
      case None
      with True show ?thesis by simp
    next
      case (Some n')
      from 5[OF True Some] obtain s where s: "Text_f (Some k) (Some n') = Inr s" by blast
      with True Some show ?thesis
        by (subst Text_k.simps) (simp del: Text_f.simps Text_k.simps)
    qed
  qed
qed


text \<open>The inner calls of the closure always return, so dropping their results leaves
  these equations.\<close>

lemma Text_k_unfold:
  "Text_k (Some k) (Some p) =
     (if onlyWhitespace (Data (here k))
      then (case NextSibling p of None \<Rightarrow> Inr [] | Some n' \<Rightarrow> Inr (Data (here k)))
      else Inr (Data (here k)))"
proof (cases "NextSibling p")
  case None
  then show ?thesis by simp
next
  case (Some n')
  obtain s where "Text_f (Some k) (Some n') = Inr s"
    using Text_f_returns_both(1)[of "Some n'" "Some k"] by auto
  with Some show ?thesis
    by (subst Text_k.simps) (simp del: Text_f.simps Text_k.simps)
qed

lemma Text_f_unfold:
  "Text_f (Some k) (Some p) =
     (if tree.Type (here p) \<noteq> TextNode
      then (case NextSibling p of None \<Rightarrow> Inr [] | Some n' \<Rightarrow> Text_k (Some k) (Some n'))
      else Text_k (Some k) (Some p))"
proof (cases "NextSibling p")
  case None
  then show ?thesis
    by (subst Text_f.simps) (simp del: Text_f.simps Text_k.simps)
next
  case (Some n')
  obtain s where "Text_f (Some k) (Some n') = Inr s"
    using Text_f_returns_both(1)[of "Some n'" "Some k"] by auto
  with Some show ?thesis
    by (subst Text_f.simps) (simp del: Text_f.simps Text_k.simps)
qed

text \<open>What \<open>Text\<close> computes: it always returns, and the result is the empty string or the
  \<open>Data\<close> of the first child, whatever kind of node that child is.\<close>

lemma Text_value:
  assumes "Node r = Some n"
  shows "Text r =
     Inr (case kids (here n) of
            [] \<Rightarrow> []
          | k # rest \<Rightarrow>
              if tree.Type k \<noteq> TextNode
              then (case rest of
                      [] \<Rightarrow> []
                    | x # rest' \<Rightarrow>
                        if onlyWhitespace (Data k) \<and> rest' = [] then [] else Data k)
              else if onlyWhitespace (Data k) \<and> rest = [] then [] else Data k)"
proof (cases "kids (here n)")
  case Nil
  with assms show ?thesis
    by (simp add: Text_def FirstChild_def)
next
  case (Cons k rest)
  with assms have "Text r = Text_f (Some (At [] k rest)) (Some (At [] k rest))"
    by (simp add: Text_def FirstChild_def del: Text_f.simps)
  with Cons show ?thesis
    by (simp add: Text_f_unfold Text_k_unfold NextSibling_def
             del: Text_f.simps Text_k.simps split: list.splits)
qed

text \<open>Claim C7 fails on the code. The closure drops the results of its recursive calls and
  always returns \<open>k.Data\<close>, the data of the first child: for a first child that is an
  element the result is its tag name, and for a first child that is white space only and
  not the last child the result is that white space.\<close>

theorem Text_returns_first_child_data:
  "Text (top li_link_first) = Inr ''a''
   \<and> shallow_text (At [] li_link_first []) = '' right?''
   \<and> Text (top div_blank_first) = Inr '' ''
   \<and> shallow_text (At [] div_blank_first []) = ''One more''"
  by code_simp

section \<open>Error kinds of the failing operations\<close>

text \<open>Claim C8 fails on the code. On the root element, which has no sibling,
  \<open>FindPrevSibling\<close>, \<open>FindNextElementSibling\<close> and \<open>FindPrevElementSibling\<close> all fail with
  \<open>ErrNoNextSibling\<close>, and a \<open>FindAllStrict\<close> that finds nothing fails with
  \<open>ErrElementNotFound\<close>; only \<open>FindAll\<close> fails with the kind the claim names.\<close>

theorem failing_operations_error_kinds:
  "FindPrevSibling (top divs_doc)
     = Inr \<lparr>Node = None, NodeValue = [],
             Root.Error = Some \<lparr>Error.Type = ErrNoNextSibling,
                                msg = ''no previous sibling found''\<rparr>\<rparr>
   \<and> FindNextElementSibling (top divs_doc)
     = Inr \<lparr>Node = None, NodeValue = [],
             Root.Error = Some \<lparr>Error.Type = ErrNoNextSibling,
                                msg = ''no next element sibling found''\<rparr>\<rparr>
   \<and> FindPrevElementSibling (top divs_doc)
     = Inr \<lparr>Node = None, NodeValue = [],
             Root.Error = Some \<lparr>Error.Type = ErrNoNextSibling,
                                msg = ''no previous element sibling found''\<rparr>\<rparr>
   \<and> FindAllStrict (top divs_doc) [''footer'']
     = Inr \<lparr>Roots = [], Len = 0,
             Roots.Error = Some \<lparr>Error.Type = ErrElementNotFound,
                                 msg = ''element `footer` with attributes `` not found''\<rparr>\<rparr>
   \<and> FindAll (top divs_doc) [''footer'']
     = Inr \<lparr>Roots = [], Len = 0,
             Roots.Error = Some \<lparr>Error.Type = ErrElementsNotFound,
                                 msg = ''no elements or attriabutes found''\<rparr>\<rparr>"
  by code_simp


section \<open>Multi-result search\<close>

lemma findAllofem_attrs_query:
  "findAllofem_attrs attrs n [t, name, v] strict acc
     = Inr (acc @ replicate (length (filter (satisfies strict (name, v)) attrs)) n)"
proof (induction attrs arbitrary: acc)
  case Nil
  then show ?case by simp
next
  case (Cons a attrs)
  have s: "satisfies strict (name, v) a =
             ((strict \<and> attributeAndValueEquals a name v) \<or>
              (\<not> strict \<and> attributeContainsValue a name v))"
    by (auto simp: satisfies_def strict_match_def loose_match_def attributeAndValueEquals_def
                   attributeContainsValue_def containsField_set)
  show ?case
  proof (cases "satisfies strict (name, v) a")
    case True
    with s Cons.IH[of "acc @ [n]"] show ?thesis
      by (simp add: replicate_append_same)
  next
    case False
    with s Cons.IH[of acc] show ?thesis
      by auto
  qed
qed

lemma findAllofem_test_query:
  "findAllofem_test n (query_args q) strict acc = Inr (acc @ replicate (occurrences q strict n) n)"
  by (cases q)
     (auto simp: findAllofem_test_def query_args_def occurrences_def matchElementName_def
                 findAllofem_attrs_query split: option.splits)

lemma copies_append: "copies q strict (xs @ ys) = copies q strict xs @ copies q strict ys"
  by (simp add: copies_def)

lemma copies_Cons: "copies q strict (x # xs) = replicate (occurrences q strict x) x @ copies q strict xs"
  by (simp add: copies_def)

lemma findAllofem_query_both:
  "(\<forall>n. p = Some n \<longrightarrow> args = query_args q \<longrightarrow>
      findAllofem_f strict p args uni acc =
        Inr (acc @ copies q strict (if uni then n # descendants n else descendants n)))"
  "(args = query_args q \<longrightarrow>
      findAllofem_children strict p' args acc' = Inr (acc' @ copies q strict (following p')))"
proof (induction strict p args uni acc and strict p' args acc'
       rule: findAllofem_f_findAllofem_children.induct)
  case (1 strict args uni nodeLinks)
  then show ?case by simp
next
  case (2 strict n args uni nodeLinks)
  show ?case
  proof (intro allI impI)
    fix n' assume eq: "Some n = Some n'" and a: "args = query_args q"
    show "findAllofem_f strict (Some n) args uni nodeLinks =
            Inr (nodeLinks @ copies q strict (if uni then n' # descendants n' else descendants n'))"
    proof (cases uni)
      case True
      have t: "findAllofem_test n args strict nodeLinks
                 = Inr (nodeLinks @ replicate (occurrences q strict n) n)"
        using a by (simp add: findAllofem_test_query)
      from 2(1)[OF True t] a
      have "findAllofem_children strict (FirstChild n) args
              (nodeLinks @ replicate (occurrences q strict n) n)
            = Inr ((nodeLinks @ replicate (occurrences q strict n) n)
                    @ copies q strict (following (FirstChild n)))"
        by simp
      with True t eq show ?thesis
        by (simp add: copies_Cons descendants_FirstChild)
    next
      case False
      with 2(2)[OF False] a eq show ?thesis
        by (simp add: descendants_FirstChild)
    qed
  qed
next
  case (3 strict args nodeLinks)
  then show ?case by (simp add: following_None copies_def)
next
  case (4 strict c args nodeLinks)
  show ?case
  proof
    assume a: "args = query_args q"
    from 4(1) a have f: "findAllofem_f strict (Some c) args True nodeLinks
                           = Inr (nodeLinks @ copies q strict (c # descendants c))"
      by simp
    from 4(2)[OF f] a
    have "findAllofem_children strict (NextSibling c) args
            (nodeLinks @ copies q strict (c # descendants c))
          = Inr ((nodeLinks @ copies q strict (c # descendants c))
                  @ copies q strict (following (NextSibling c)))"
      by simp
    with f show "findAllofem_children strict (Some c) args nodeLinks
                   = Inr (nodeLinks @ copies q strict (following (Some c)))"
      by (simp add: following_Some copies_append copies_Cons del: findAllofem_f.simps)
  qed
qed

text \<open>For a well-formed query the multi-result search returns the descendants in document
  order, each as many times as it has qualifying attribute pairs: no match is left out,
  and a match with several qualifying pairs is repeated.\<close>

lemma findAllofem_query:
  "findAllofem (Some n) (query_args q) strict = Inr (copies q strict (descendants n))"
  using findAllofem_query_both(1)[of "Some n" "query_args q" q strict False "[]"]
  by (simp add: findAllofem_def)

lemma occurrences_is_match: "(0 < occurrences q strict n) = is_match q strict n"
  by (auto simp: occurrences_def is_match_def list_ex_iff filter_empty_conv split: option.splits)

lemma copies_filter:
  "\<forall>m \<in> set xs. occurrences q strict m \<le> 1 \<Longrightarrow> copies q strict xs = filter (is_match q strict) xs"
proof (induction xs)
  case Nil
  then show ?case by (simp add: copies_def)
next
  case (Cons x xs)
  then have "occurrences q strict x = 0 \<or> occurrences q strict x = 1" by auto
  with Cons occurrences_is_match[of q strict x] show ?case
    by (auto simp: copies_Cons)
qed

text \<open>When no descendant carries more than one qualifying attribute pair, the result is
  exactly the matching descendants in document order.\<close>

lemma findAllofem_query_single_pairs:
  "\<forall>m \<in> set (descendants n). occurrences q strict m \<le> 1 \<Longrightarrow>
     findAllofem (Some n) (query_args q) strict = Inr (filter (is_match q strict) (descendants n))"
  by (simp add: findAllofem_query copies_filter)

text \<open>Claim C5 fails on the code. The loop over the attributes appends the node once for
  every attribute pair that satisfies the constraint and does not stop at the first: the
  link below matches the query once and is returned twice, by \<open>FindAll\<close> and by
  \<open>FindAllStrict\<close>.\<close>

theorem FindAll_repeats_node_per_attribute:
  "filter (is_match (Query ''a'' (Some (''href'', ''x''))) False) (descendants (At [] svg_doc []))
     = [At [] svg_link []]
   \<and> FindAll (top svg_doc) [''a'', ''href'', ''x'']
     = Inr \<lparr>Roots = [wrap (At [] svg_link []), wrap (At [] svg_link [])], Len = 2,
             Roots.Error = None\<rparr>
   \<and> FindAllStrict (top svg_doc) [''a'', ''href'', ''x'']
     = Inr \<lparr>Roots = [wrap (At [] svg_link []), wrap (At [] svg_link [])], Len = 2,
             Roots.Error = None\<rparr>"
  by code_simp


section \<open>First and last of a collection\<close>

text \<open>Claim C10. \<open>First\<close> and \<open>Last\<close> read positions \<open>0\<close> and \<open>Len - 1\<close> of the sequence
  with no guard. On every collection whose sequence is empty both panic with an index out
  of range, in particular on the result of a \<open>FindAll\<close> that found nothing; they return an
  element only when the sequence is not empty, and then \<open>First\<close> returns the element at
  position 0 and \<open>Last\<close>, when \<open>Len\<close> is the length, the element at the last position.\<close>

theorem First_Last_need_nonempty:
  "(Roots rs = [] \<longrightarrow> First rs = Inl IndexOutOfRange \<and> Last rs = Inl IndexOutOfRange)
   \<and> (First rs = Inr x \<longrightarrow> Roots rs \<noteq> [] \<and> x = Roots rs ! 0)
   \<and> (Last rs = Inr x \<longrightarrow> Roots rs \<noteq> [] \<and> 0 \<le> Len rs - 1 \<and> x = Roots rs ! nat (Len rs - 1))
   \<and> (Roots rs \<noteq> [] \<longrightarrow> First rs = Inr (Roots rs ! 0))
   \<and> (Roots rs \<noteq> [] \<and> Len rs = int (length (Roots rs)) \<longrightarrow>
        Last rs = Inr (Roots rs ! (length (Roots rs) - 1)))
   \<and> (FindAll r args = Inr rs \<and> Roots.Error rs \<noteq> None \<longrightarrow>
        First rs = Inl IndexOutOfRange \<and> Last rs = Inl IndexOutOfRange)"
proof -
  have a: "Roots rs = [] \<longrightarrow> First rs = Inl IndexOutOfRange \<and> Last rs = Inl IndexOutOfRange"
    by (auto simp: First_def Last_def Let_def)
  have b: "First rs = Inr x \<longrightarrow> Roots rs \<noteq> [] \<and> x = Roots rs ! 0"
    by (auto simp: First_def split: if_splits)
  have c: "Last rs = Inr x \<longrightarrow>
             Roots rs \<noteq> [] \<and> 0 \<le> Len rs - 1 \<and> x = Roots rs ! nat (Len rs - 1)"
    by (auto simp: Last_def Let_def split: if_splits)
  have d: "Roots rs \<noteq> [] \<longrightarrow> First rs = Inr (Roots rs ! 0)"
    by (simp add: First_def)
  have e: "Roots rs \<noteq> [] \<and> Len rs = int (length (Roots rs)) \<longrightarrow>
             Last rs = Inr (Roots rs ! (length (Roots rs) - 1))"
  proof
    assume h: "Roots rs \<noteq> [] \<and> Len rs = int (length (Roots rs))"
    then have "0 < length (Roots rs)" by simp
    then have "nat (int (length (Roots rs)) - 1) = length (Roots rs) - 1"
      by linarith
    with h \<open>0 < length (Roots rs)\<close> show "Last rs = Inr (Roots rs ! (length (Roots rs) - 1))"
      by (simp add: Last_def Let_def)
  qed
  have f: "FindAll r args = Inr rs \<and> Roots.Error rs \<noteq> None \<longrightarrow>
             First rs = Inl IndexOutOfRange \<and> Last rs = Inl IndexOutOfRange"
    by (auto simp: FindAll_def First_def Last_def Let_def split: sum.splits if_splits)
  from a b c d e f show ?thesis by blast
qed

theorem First_Last_need_nonempty_witness:
  "First \<lparr>Roots = [], Len = 0,
          Roots.Error = Some (newError ErrElementsNotFound ''no elements or attriabutes found'')\<rparr>
     = Inl IndexOutOfRange
   \<and> Last \<lparr>Roots = [], Len = 0,
            Roots.Error = Some (newError ErrElementsNotFound ''no elements or attriabutes found'')\<rparr>
     = Inl IndexOutOfRange
   \<and> First \<lparr>Roots = [wrap div1, not_found], Len = 2, Roots.Error = None\<rparr> = Inr (wrap div1)
   \<and> Last \<lparr>Roots = [wrap div1, not_found], Len = 2, Roots.Error = None\<rparr> = Inr not_found"
proof -
  let ?e = "\<lparr>Roots = [], Len = 0,
             Roots.Error = Some (newError ErrElementsNotFound ''no elements or attriabutes found'')\<rparr>"
  let ?t = "\<lparr>Roots = [wrap div1, not_found], Len = 2, Roots.Error = None\<rparr>"
  have fa: "FindAll (top divs_doc) [''footer''] = Inr ?e"
    by code_simp
  have "First ?e = Inl IndexOutOfRange \<and> Last ?e = Inl IndexOutOfRange"
    using First_Last_need_nonempty[of ?e _ "top divs_doc" "[''footer'']"] fa by simp
  moreover have "First ?t = Inr (wrap div1) \<and> Last ?t = Inr not_found"
    using First_Last_need_nonempty[of ?t] by simp
  ultimately show ?thesis by simp
qed

section \<open>Well-formed query results\<close>

lemma FindNextElementSibling_single_ok: "FindNextElementSibling r = Inr q \<Longrightarrow> single_ok q"
proof (induction r rule: FindNextElementSibling.induct)
  case (1 r)
  from "1.prems" obtain n where n: "Node r = Some n"
    by (subst (asm) FindNextElementSibling.simps) (auto split: option.splits)
  show ?case
  proof (cases "NextSibling n")
    case None
    with "1.prems" n show ?thesis
      by (subst (asm) FindNextElementSibling.simps) (auto simp: single_ok_def newError_def)
  next
    case (Some s)
    show ?thesis
    proof (cases "tree.Type (here s) = ElementNode")
      case True
      with "1.prems" n Some show ?thesis
        by (subst (asm) FindNextElementSibling.simps) (auto simp: single_ok_def)
    next
      case False
      with "1.prems" n Some
      have "FindNextElementSibling
              \<lparr>Node = Some s, NodeValue = Data (here s), Root.Error = None\<rparr> = Inr q"
        by (subst (asm) FindNextElementSibling.simps) (simp del: FindNextElementSibling.simps)
      with "1.IH"[OF n Some False] show ?thesis .
    qed
  qed
qed

lemma FindPrevElementSibling_single_ok: "FindPrevElementSibling r = Inr q \<Longrightarrow> single_ok q"
proof (induction r rule: FindPrevElementSibling.induct)
  case (1 r)
  from "1.prems" obtain n where n: "Node r = Some n"
    by (subst (asm) FindPrevElementSibling.simps) (auto split: option.splits)
  show ?case
  proof (cases "PrevSibling n")
    case None
    with "1.prems" n show ?thesis
      by (subst (asm) FindPrevElementSibling.simps) (auto simp: single_ok_def newError_def)
  next
    case (Some s)
    show ?thesis
    proof (cases "tree.Type (here s) = ElementNode")
      case True
      with "1.prems" n Some show ?thesis
        by (subst (asm) FindPrevElementSibling.simps) (auto simp: single_ok_def)
    next
      case False
      with "1.prems" n Some
      have "FindPrevElementSibling
              \<lparr>Node = Some s, NodeValue = Data (here s), Root.Error = None\<rparr> = Inr q"
        by (subst (asm) FindPrevElementSibling.simps) (simp del: FindPrevElementSibling.simps)
      with "1.IH"[OF n Some False] show ?thesis .
    qed
  qed
qed

lemma Children_loop_value:
  "Children_loop p childrenNode rootNode =
     (case p of
        None \<Rightarrow> childrenNode
      | Some c \<Rightarrow>
          childrenNode\<lparr>Roots := rootNode @ map wrap (children_at (lefts c) (here c # rights c)),
                        Len := int (length rootNode) + 1 + int (length (rights c))\<rparr>)"
proof (induction p childrenNode rootNode rule: Children_loop.induct)
  case (1 childrenNode rootNode)
  then show ?case by simp
next
  case (2 childNode childrenNode rootNode)
  obtain l t rs where c: "childNode = At l t rs"
    by (cases childNode) blast
  show ?case
  proof (cases rs)
    case Nil
    with c show ?thesis
      by (simp add: NextSibling_def wrap_def Let_def)
  next
    case (Cons x r)
    with 2 c show ?thesis
      by (simp add: NextSibling_def wrap_def Let_def)
  qed
qed

lemma length_children_at: "length (children_at l cs) = length cs"
  by (induction cs arbitrary: l) auto

lemma Children_value:
  "Node r = Some n \<Longrightarrow>
     Children r = Inr \<lparr>Roots = map wrap (children_at [] (kids (here n))),
                        Len = int (length (kids (here n))), Roots.Error = None\<rparr>"
  by (cases "kids (here n)")
     (simp_all add: Children_def Children_loop_value FirstChild_def del: Children_loop.simps)

text \<open>Claim C9, as the code has it. Every single query result that parsing, a query or a
  sibling operation returns holds exactly one of a node and an error. In every collection that
  \<open>FindAll\<close>, \<open>FindAllStrict\<close> or \<open>Children\<close> returns, each entry holds a node and no
  error and \<open>Len\<close> is the length of the sequence. For \<open>FindAll\<close> and \<open>FindAllStrict\<close> the
  collection's error is set exactly when the sequence is empty. \<open>Children\<close> returns the
  immediate children in order and never sets the error, also when there are none.\<close>

theorem query_results_well_formed:
  "(htmlparsing parsed = Some (Inr q) \<longrightarrow> single_ok q)
   \<and> (Find r args = Inr q \<longrightarrow> single_ok q)
   \<and> (FindStrict r args = Inr q \<longrightarrow> single_ok q)
   \<and> (Title r = Inr q \<longrightarrow> single_ok q)
   \<and> (FindNextSibling r = Inr q \<longrightarrow> single_ok q)
   \<and> (FindPrevSibling r = Inr q \<longrightarrow> single_ok q)
   \<and> (FindNextElementSibling r = Inr q \<longrightarrow> single_ok q)
   \<and> (FindPrevElementSibling r = Inr q \<longrightarrow> single_ok q)
   \<and> (FindAll r args = Inr rs \<longrightarrow>
        entries_ok rs \<and> ((Roots.Error rs \<noteq> None) = (Roots rs = [])))
   \<and> (FindAllStrict r args = Inr rs \<longrightarrow>
        entries_ok rs \<and> ((Roots.Error rs \<noteq> None) = (Roots rs = [])))
   \<and> (Children r = Inr rs \<longrightarrow>
        entries_ok rs \<and> Roots.Error rs = None \<and>
        (\<exists>n. Node r = Some n \<and> Roots rs = map wrap (children_at [] (kids (here n)))))"
proof -
  have c0: "htmlparsing parsed = Some (Inr q) \<longrightarrow> single_ok q"
    by (auto simp: htmlparsing_def single_ok_def newError_def split: sum.splits option.splits)
  have c1: "Find r args = Inr q \<longrightarrow> single_ok q"
    by (auto simp: Find_def single_ok_def simp del: findOnce.simps
             split: sum.splits option.splits)
  have c2: "FindStrict r args = Inr q \<longrightarrow> single_ok q"
    by (auto simp: FindStrict_def single_ok_def simp del: findOnce.simps
             split: sum.splits option.splits)
  have c3: "Title r = Inr q \<longrightarrow> single_ok q"
    by (auto simp: Title_def single_ok_def simp del: findOnce.simps
             split: sum.splits option.splits)
  have c4: "FindNextSibling r = Inr q \<longrightarrow> single_ok q"
    by (auto simp: FindNextSibling_def single_ok_def newError_def split: option.splits)
  have c5: "FindPrevSibling r = Inr q \<longrightarrow> single_ok q"
    by (auto simp: FindPrevSibling_def single_ok_def newError_def split: option.splits)
  have c6: "FindNextElementSibling r = Inr q \<longrightarrow> single_ok q"
    using FindNextElementSibling_single_ok by blast
  have c7: "FindPrevElementSibling r = Inr q \<longrightarrow> single_ok q"
    using FindPrevElementSibling_single_ok by blast
  have w: "list_all (\<lambda>x. Node x \<noteq> None \<and> Root.Error x = None) (map wrap ms)" for ms
    by (induction ms) (auto simp: wrap_def)
  have c8: "FindAll r args = Inr rs \<longrightarrow>
              entries_ok rs \<and> ((Roots.Error rs \<noteq> None) = (Roots rs = []))"
    using w by (auto simp: FindAll_def entries_ok_def split: sum.splits if_splits)
  have c9: "FindAllStrict r args = Inr rs \<longrightarrow>
              entries_ok rs \<and> ((Roots.Error rs \<noteq> None) = (Roots rs = []))"
    using w by (auto simp: FindAllStrict_def entries_ok_def split: sum.splits if_splits)
  have c10: "Children r = Inr rs \<longrightarrow>
               entries_ok rs \<and> Roots.Error rs = None \<and>
               (\<exists>n. Node r = Some n \<and> Roots rs = map wrap (children_at [] (kids (here n))))"
  proof
    assume a: "Children r = Inr rs"
    then obtain n where n: "Node r = Some n"
      by (auto simp: Children_def split: option.splits)
    from Children_value[OF n] a
    have rs: "rs = \<lparr>Roots = map wrap (children_at [] (kids (here n))),
                    Len = int (length (kids (here n))), Roots.Error = None\<rparr>"
      by simp
    with n w[of "children_at [] (kids (here n))"]
    show "entries_ok rs \<and> Roots.Error rs = None \<and>
          (\<exists>n. Node r = Some n \<and> Roots rs = map wrap (children_at [] (kids (here n))))"
      by (simp add: entries_ok_def length_children_at)
  qed
  from c0 c1 c2 c3 c4 c5 c6 c7 c8 c9 c10 show ?thesis by blast
qed

theorem query_results_well_formed_witness:
  "htmlparsing (Inr (Some parsed_doc)) = Some (Inr (wrap parsed_root)) \<and> single_ok (wrap parsed_root)
   \<and> Find (top divs_doc) [''div'', ''id'', ''1''] = Inr (wrap div1) \<and> single_ok (wrap div1)
   \<and> Find (top divs_doc) [''missing''] = Inr not_found \<and> single_ok not_found
   \<and> FindAll (top divs_doc) [''footer'']
       = Inr \<lparr>Roots = [], Len = 0,
               Roots.Error =
                 Some (newError ErrElementsNotFound ''no elements or attriabutes found'')\<rparr>
   \<and> Children (top divs_doc)
       = Inr \<lparr>Roots = [wrap (At [] divs_body [])], Len = 1, Roots.Error = None\<rparr>
   \<and> entries_ok \<lparr>Roots = [wrap (At [] divs_body [])], Len = 1, Roots.Error = None\<rparr>"
proof -
  have f1: "Find (top divs_doc) [''div'', ''id'', ''1''] = Inr (wrap div1)"
    by code_simp
  have f2: "Find (top divs_doc) [''missing''] = Inr not_found"
    by code_simp
  have f3: "FindAll (top divs_doc) [''footer'']
              = Inr \<lparr>Roots = [], Len = 0,
                      Roots.Error =
                        Some (newError ErrElementsNotFound ''no elements or attriabutes found'')\<rparr>"
    by code_simp
  have f4: "Children (top divs_doc)
              = Inr \<lparr>Roots = [wrap (At [] divs_body [])], Len = 1, Roots.Error = None\<rparr>"
    by code_simp
  have f0: "htmlparsing (Inr (Some parsed_doc)) = Some (Inr (wrap parsed_root))"
    by (simp add: htmlparsing_def htmlparsing_loop.simps parsed_doc_def parsed_root_def wrap_def
                  FirstChild_def NextSibling_def divs_doc_def el_def)
  from query_results_well_formed[of "Inr (Some parsed_doc)" "wrap parsed_root"] f0
  have g0: "single_ok (wrap parsed_root)" by simp
  from query_results_well_formed[of _ "wrap div1" "top divs_doc" "[''div'', ''id'', ''1'']"] f1
  have g1: "single_ok (wrap div1)" by simp
  from query_results_well_formed[of _ not_found "top divs_doc" "[''missing'']"] f2
  have g2: "single_ok not_found" by simp
  from query_results_well_formed[of _ _ "top divs_doc" _
         "\<lparr>Roots = [wrap (At [] divs_body [])], Len = 1, Roots.Error = None\<rparr>"] f4
  have g4: "entries_ok \<lparr>Roots = [wrap (At [] divs_body [])], Len = 1, Roots.Error = None\<rparr>"
    by simp
  from f0 f1 f2 f3 f4 g0 g1 g2 g4 show ?thesis by simp
qed

theorem Children_empty_counterexample:
  "Children (top (el ''br'' [] [])) = Inr \<lparr>Roots = [], Len = 0, Roots.Error = None\<rparr>"
  by code_simp

end
